theory Spec2Isabelle
  imports Main "HOL-Library.Word" "HOL-Library.Product_Lexorder" "HOL-Library.Multiset"
begin

section \<open>The accumulator-and-heap ranking engine of JASS\<close>

text \<open>
  The repository holds two versions of the class \<open>query_atire_global\<close>. One declares
  its working memory as statically sized global arrays (\<open>clean_flags[10]\<close>,
  \<open>accumulators[200'000]\<close>, \<open>accumulator_pointers[200'000]\<close>, a heap over 10 pointers);
  the other, \<open>source/query_atire_global.h\<close>, allocates the arrays in its constructor
  (\<open>new uint8_t[accumulators_height]\<close>, a heap over \<open>top_k\<close> pointers). Both share the
  bodies of \<open>rewind\<close>, \<open>add_rsv\<close>, \<open>begin\<close> and \<open>end\<close>. The model covers both; the
  field \<open>variant\<close> says which one runs.

  A pointer into \<open>accumulators\<close> is modelled by the index of its cell, so the pointer
  difference \<open>a - b\<close> is the difference of the indices and \<open>which - accumulators\<close> is
  the document identifier. Arrays are functions from indices; every access is checked
  against the extent of its array and an access outside it (undefined behaviour in
  C++) is the value \<open>Inl Out_of_bounds\<close>. There is no null pointer in the model: an entry
  of the pointer array that the program has not written is some index. The results that
  depend on the pointers concern engines whose heap spans exactly the \<open>top_k\<close> tracked
  pointers, where no such entry is read.
\<close>

subsection \<open>Strip geometry\<close>

text \<open>
  \<open>accumulators_shift = log2(sqrt((double)documents))\<close>, converted to an unsigned
  integer, truncates towards zero. The two functions below are the integer parts of
  the square root and of the binary logarithm.
\<close>

fun floor_sqrt :: "nat \<Rightarrow> nat" where
  "floor_sqrt n =
     (if n = 0 then 0
      else let r = 2 * floor_sqrt (n div 4)
           in if (r + 1) * (r + 1) \<le> n then r + 1 else r)"

fun floor_log2 :: "nat \<Rightarrow> nat" where
  "floor_log2 n = (if n < 2 then 0 else Suc (floor_log2 (n div 2)))"

declare floor_sqrt.simps [simp del] floor_log2.simps [simp del]

definition shift_of :: "nat \<Rightarrow> nat" where
  "shift_of documents = floor_log2 (floor_sqrt documents)"

definition width_of :: "nat \<Rightarrow> nat" where
  "width_of documents = 2 ^ shift_of documents"

definition height_of :: "nat \<Rightarrow> nat" where
  "height_of documents = (documents + width_of documents) div width_of documents"

subsection \<open>The comparator\<close>

text \<open>
  The version with static arrays:
  \<^verbatim>\<open>int operator() (uint16_t *a, uint16_t *b) const
     { return *a > *b ? 1 : *a < *b ? -1 : a - b; }\<close>
  The pointer difference is converted to \<open>int\<close> (32 bits, two's complement).
\<close>

definition add_rsv_compare_static :: "(nat \<Rightarrow> 16 word) \<Rightarrow> nat \<Rightarrow> nat \<Rightarrow> int" where
  "add_rsv_compare_static A a b =
     (if A a > A b then 1
      else if A a < A b then - 1
      else signed_take_bit 31 (int a - int b))"

text \<open>
  The version of \<open>source/query_atire_global.h\<close>:
  \<^verbatim>\<open>return *a > *b ? 1 : *a < *b ? -1 : (a > b ? 1 : a < b ? -1 : 0);\<close>
\<close>

definition add_rsv_compare :: "(nat \<Rightarrow> 16 word) \<Rightarrow> nat \<Rightarrow> nat \<Rightarrow> int" where
  "add_rsv_compare A a b =
     (if A a > A b then 1
      else if A a < A b then - 1
      else (if a > b then 1 else if a < b then - 1 else 0))"

text \<open>The order \<open>\<prec>\<close> of the specification: score first, then address.\<close>

definition key :: "(nat \<Rightarrow> 16 word) \<Rightarrow> nat \<Rightarrow> 16 word \<times> nat" where
  "key A a = (A a, a)"

subsection \<open>The state of the engine\<close>

datatype variant = Static_arrays | Allocated_arrays

datatype fault = Out_of_bounds

record engine =
  variant :: variant
  clean_flags :: "nat \<Rightarrow> 8 word"
  accumulators :: "nat \<Rightarrow> 16 word"
  accumulator_pointers :: "nat \<Rightarrow> nat"
  accumulators_shift :: nat
  accumulators_width :: nat
  accumulators_height :: nat
  results_list_length :: nat
  top_k :: nat
  primary_keys :: "string list"

text \<open>
  The extents of the arrays and the size the heap object was constructed with:
  \<^verbatim>\<open>uint8_t clean_flags[10]; uint16_t accumulators[200'000];
  uint16_t *accumulator_pointers[200'000];
  heap<uint16_t *, struct add_rsv_compare> top_results(*accumulator_pointers, 10);\<close>
  in the static version, and
  \<^verbatim>\<open>accumulator_pointers = new ACCUMULATOR_TYPE*[top_k];
  accumulators = new ACCUMULATOR_TYPE[accumulators_width * accumulators_height];
  clean_flags = new uint8_t[accumulators_height];
  heap = new ANT_heap<uint16_t *, add_rsv_compare>(*accumulator_pointers, top_k);\<close>
  in the allocating one.
\<close>

definition clean_flags_extent :: "engine \<Rightarrow> nat" where
  "clean_flags_extent e =
     (case variant e of Static_arrays \<Rightarrow> 10 | Allocated_arrays \<Rightarrow> accumulators_height e)"

definition accumulators_extent :: "engine \<Rightarrow> nat" where
  "accumulators_extent e =
     (case variant e of Static_arrays \<Rightarrow> 200000
      | Allocated_arrays \<Rightarrow> accumulators_width e * accumulators_height e)"

definition accumulator_pointers_extent :: "engine \<Rightarrow> nat" where
  "accumulator_pointers_extent e =
     (case variant e of Static_arrays \<Rightarrow> 200000 | Allocated_arrays \<Rightarrow> top_k e)"

definition heap_size :: "engine \<Rightarrow> nat" where
  "heap_size e = (case variant e of Static_arrays \<Rightarrow> 10 | Allocated_arrays \<Rightarrow> top_k e)"

definition cmp :: "engine \<Rightarrow> nat \<Rightarrow> nat \<Rightarrow> int" where
  "cmp e a b =
     (case variant e of Static_arrays \<Rightarrow> add_rsv_compare_static (accumulators e) a b
      | Allocated_arrays \<Rightarrow> add_rsv_compare (accumulators e) a b)"

text \<open>
  \<open>heap.h\<close> and \<open>top_k_qsort.h\<close> are not among the sources. The engine is therefore
  parametrised by the four operations it calls; each works on the pointer array, reads
  the accumulators through the comparator, and returns the new pointer array.
\<close>

record externals =
  ext_make_heap :: "(nat \<Rightarrow> 16 word) \<Rightarrow> nat \<Rightarrow> (nat \<Rightarrow> nat) \<Rightarrow> (nat \<Rightarrow> nat)"
  ext_promote :: "(nat \<Rightarrow> 16 word) \<Rightarrow> nat \<Rightarrow> (nat \<Rightarrow> nat) \<Rightarrow> nat \<Rightarrow> (nat \<Rightarrow> nat)"
  ext_push_back :: "(nat \<Rightarrow> 16 word) \<Rightarrow> nat \<Rightarrow> (nat \<Rightarrow> nat) \<Rightarrow> nat \<Rightarrow> (nat \<Rightarrow> nat)"
  ext_top_k_qsort :: "(nat \<Rightarrow> 16 word) \<Rightarrow> (nat \<Rightarrow> nat) \<Rightarrow> nat \<Rightarrow> nat \<Rightarrow> (nat \<Rightarrow> nat)"

subsection \<open>rewind\<close>

text \<open>
  \<^verbatim>\<open>results_list_length = 0;
  memset(clean_flags, 0, accumulators_height);\<close>
  (The static version also replaces the parsed query, which belongs to the query
  parser and is not part of the ranking state.)
\<close>

definition rewind :: "engine \<Rightarrow> fault + engine" where
  "rewind e =
     (if clean_flags_extent e < accumulators_height e then Inl Out_of_bounds
      else Inr (e\<lparr>results_list_length := 0,
                  clean_flags := (\<lambda>s. if s < accumulators_height e then 0 else clean_flags e s)\<rparr>))"

subsection \<open>Construction\<close>

text \<open>
  \<^verbatim>\<open>accumulators_shift = log2(sqrt((double)documents));
  accumulators_width = 1 << accumulators_shift;
  accumulators_height = (documents + accumulators_width) / accumulators_width;
  ...
  JASS::top_k = top_k;\<close>
  followed by \<open>rewind()\<close> in the static version and by
  \<open>memset(clean_flags, 0, accumulators_height)\<close> in the allocating one, which leaves
  \<open>results_list_length\<close> as it is. The parameters are \<open>size_t\<close>; the fields of the
  static version are \<open>uint32_t\<close> and those of the allocating one \<open>size_t\<close>, which
  \<open>field_of\<close> writes out. The sum \<open>documents + accumulators_width\<close> is computed in
  \<open>size_t\<close>. (The model is meant for \<open>documents < 2 ^ 48\<close>: up to there the
  \<open>double\<close> computation is exact and \<open>1 << accumulators_shift\<close> does not overflow
  \<open>int\<close>.) The argument \<open>g\<close> is the memory the constructor finds: the globals as the
  program or an earlier query left them, or the contents of freshly allocated arrays.
\<close>

definition field_of :: "variant \<Rightarrow> nat \<Rightarrow> nat" where
  "field_of v n = (case v of Static_arrays \<Rightarrow> n mod 2 ^ 32 | Allocated_arrays \<Rightarrow> n mod 2 ^ 64)"

definition constructed_shift :: "variant \<Rightarrow> nat \<Rightarrow> nat" where
  "constructed_shift v documents = field_of v (shift_of documents)"

definition constructed_width :: "variant \<Rightarrow> nat \<Rightarrow> nat" where
  "constructed_width v documents = field_of v (2 ^ constructed_shift v documents)"

definition constructed_height :: "variant \<Rightarrow> nat \<Rightarrow> nat" where
  "constructed_height v documents =
     field_of v (((documents + constructed_width v documents) mod 2 ^ 64)
                 div constructed_width v documents)"

definition query_atire_global :: "variant \<Rightarrow> engine \<Rightarrow> string list \<Rightarrow> nat \<Rightarrow> nat \<Rightarrow> fault + engine" where
  "query_atire_global v g keys documents k =
     (let e = g\<lparr>variant := v,
                accumulators_shift := constructed_shift v documents,
                accumulators_width := constructed_width v documents,
                accumulators_height := constructed_height v documents,
                primary_keys := keys, top_k := field_of v k\<rparr>
      in case v of
           Static_arrays \<Rightarrow> rewind e
         | Allocated_arrays \<Rightarrow>
             Inr (e\<lparr>clean_flags :=
                     (\<lambda>s. if s < accumulators_height e then 0 else clean_flags e s)\<rparr>))"

text \<open>Static storage is zero-initialised when the program starts.\<close>

definition program_start :: engine where
  "program_start =
     \<lparr>variant = Static_arrays, clean_flags = (\<lambda>_. 0), accumulators = (\<lambda>_. 0),
      accumulator_pointers = (\<lambda>_. 0), accumulators_shift = 0, accumulators_width = 0,
      accumulators_height = 0, results_list_length = 0, top_k = 0, primary_keys = []\<rparr>"

subsection \<open>add_rsv\<close>

text \<open>
  The first block of \<open>add_rsv\<close> ("Make sure the accumulator exists"):
  \<^verbatim>\<open>if (clean_flags[docid >> accumulators_shift] == 0)
    {
    clean_flags[docid >> accumulators_shift] = 1;
    memset(accumulators + (accumulators_width * (docid >> accumulators_shift)), 0,
           accumulators_width * sizeof(ACCUMULATOR_TYPE));
    }\<close>
\<close>

definition touch :: "engine \<Rightarrow> nat \<Rightarrow> fault + engine" where
  "touch e docid =
     (let strip = drop_bit (accumulators_shift e) docid in
      if clean_flags_extent e \<le> strip then Inl Out_of_bounds
      else if clean_flags e strip = 0 then
        (if accumulators_extent e < accumulators_width e * strip + accumulators_width e
         then Inl Out_of_bounds
         else Inr (e\<lparr>clean_flags := (clean_flags e)(strip := 1),
                     accumulators :=
                       (\<lambda>i. if accumulators_width e * strip \<le> i \<and>
                               i < accumulators_width e * strip + accumulators_width e
                            then 0 else accumulators e i)\<rparr>))
      else Inr e)"

text \<open>
  The second block ("Maintain a heap"), with \<open>which = accumulators + docid\<close>. The
  heap operations are \<open>make_heap\<close>, \<open>promote\<close>, \<open>push_back\<close> in the static version
  and \<open>build_min_heap\<close>, \<open>min_update\<close>, \<open>min_insert\<close> in the allocating one.
\<close>

definition add_rsv :: "externals \<Rightarrow> engine \<Rightarrow> nat \<Rightarrow> 16 word \<Rightarrow> fault + engine" where
  "add_rsv x e0 docid score =
     (case touch e0 docid of
        Inl f \<Rightarrow> Inl f
      | Inr e \<Rightarrow>
          if accumulators_extent e \<le> docid then Inl Out_of_bounds
          else if results_list_length e < top_k e then
            (let old_value = accumulators e docid;
                 e1 = e\<lparr>accumulators := (accumulators e)(docid := old_value + score)\<rparr>
             in if old_value = 0 \<and> accumulator_pointers_extent e1 \<le> results_list_length e1
                then Inl Out_of_bounds
                else
                  let e2 = (if old_value = 0
                            then e1\<lparr>accumulator_pointers :=
                                     (accumulator_pointers e1)(results_list_length e1 := docid),
                                   results_list_length := results_list_length e1 + 1\<rparr>
                            else e1)
                  in Inr (if results_list_length e2 = top_k e2
                          then e2\<lparr>accumulator_pointers :=
                                   ext_make_heap x (accumulators e2) (heap_size e2)
                                     (accumulator_pointers e2)\<rparr>
                          else e2))
          else if accumulator_pointers_extent e = 0 \<or>
                  accumulators_extent e \<le> accumulator_pointers e 0
            then Inl Out_of_bounds
          else if cmp e docid (accumulator_pointers e 0) \<ge> 0 then
            (let e1 = e\<lparr>accumulators := (accumulators e)(docid := accumulators e docid + score)\<rparr>
             in Inr (e1\<lparr>accumulator_pointers :=
                          ext_promote x (accumulators e1) (heap_size e1)
                            (accumulator_pointers e1) docid\<rparr>))
          else
            (let e1 = e\<lparr>accumulators := (accumulators e)(docid := accumulators e docid + score)\<rparr>
             in Inr (if cmp e1 docid (accumulator_pointers e1 0) > 0
                     then e1\<lparr>accumulator_pointers :=
                              ext_push_back x (accumulators e1) (heap_size e1)
                                (accumulator_pointers e1) docid\<rparr>
                     else e1)))"

text \<open>A posting list: \<open>add_rsv\<close> for each pair in turn, stopping at the first fault.\<close>

fun add_rsv_all :: "externals \<Rightarrow> engine \<Rightarrow> (nat \<times> 16 word) list \<Rightarrow> fault + engine" where
  "add_rsv_all x e [] = Inr e"
| "add_rsv_all x e (p # ps) =
     (case add_rsv x e (fst p) (snd p) of
        Inl f \<Rightarrow> Inl f
      | Inr e' \<Rightarrow> add_rsv_all x e' ps)"

subsection \<open>The iterator\<close>

text \<open>
  \<^verbatim>\<open>void sort(void) { top_k_qsort(accumulator_pointers, results_list_length, top_k); }
  auto begin(void) { sort(); return iterator(this, 0); }
  auto end(void) { return iterator(this, results_list_length); }\<close>
  An iterator is its position \<open>where\<close>; dereferencing gives
  \<^verbatim>\<open>size_t id = accumulator_pointers[where] - accumulators;
  return docid_rsv_pair(id, (*parent->primary_keys)[id], accumulators[id]);\<close>
\<close>

definition sort_pointers :: "externals \<Rightarrow> engine \<Rightarrow> engine" where
  "sort_pointers x e =
     e\<lparr>accumulator_pointers :=
         ext_top_k_qsort x (accumulators e) (accumulator_pointers e)
           (results_list_length e) (top_k e)\<rparr>"

definition iterator_begin :: "externals \<Rightarrow> engine \<Rightarrow> engine \<times> nat" where
  "iterator_begin x e = (sort_pointers x e, 0)"

definition iterator_end :: "engine \<Rightarrow> nat" where
  "iterator_end e = results_list_length e"

definition iterator_deref :: "engine \<Rightarrow> nat \<Rightarrow> fault + (nat \<times> string \<times> 16 word)" where
  "iterator_deref e pos =
     (if accumulator_pointers_extent e \<le> pos then Inl Out_of_bounds
      else let id = accumulator_pointers e pos
           in if accumulators_extent e \<le> id \<or> length (primary_keys e) \<le> id
              then Inl Out_of_bounds
              else Inr (id, primary_keys e ! id, accumulators e id))"

text \<open>
  The loop \<open>for (it = begin(); it != end(); ++it)\<close> visits the positions from 0 up to
  \<open>results_list_length\<close>.
\<close>

fun collect :: "engine \<Rightarrow> nat list \<Rightarrow> fault + (nat \<times> string \<times> 16 word) list" where
  "collect e [] = Inr []"
| "collect e (pos # rest) =
     (case iterator_deref e pos of
        Inl f \<Rightarrow> Inl f
      | Inr r \<Rightarrow> (case collect e rest of Inl f \<Rightarrow> Inl f | Inr rs \<Rightarrow> Inr (r # rs)))"

definition results :: "externals \<Rightarrow> engine \<Rightarrow> fault + (nat \<times> string \<times> 16 word) list" where
  "results x e =
     (let (e', first) = iterator_begin x e
      in collect e' [first ..< iterator_end e'])"

subsection \<open>The heap and the partial sort\<close>

text \<open>
  Modelled from the spec: \<open>heap.h\<close> (the class behind \<open>top_results\<close>) is missing from
  the sources. The specification describes it as an implicit binary min-heap in
  \<open>P[0..top_k)\<close> ordered by \<open>\<prec>\<close>, with root at index 0 and the children of \<open>i\<close> at
  \<open>2i+1\<close> and \<open>2i+2\<close>. \<open>sift_down\<close> moves the entry at \<open>i\<close> below its smaller
  child for as long as that child is smaller.
\<close>

function sift_down :: "(nat \<Rightarrow> 16 word) \<Rightarrow> nat \<Rightarrow> (nat \<Rightarrow> nat) \<Rightarrow> nat \<Rightarrow> (nat \<Rightarrow> nat)" where
  "sift_down A n P i =
     (let l = 2 * i + 1;
          r = 2 * i + 2;
          m = (if l < n \<and> key A (P l) < key A (P i) then l else i);
          m' = (if r < n \<and> key A (P r) < key A (P m) then r else m)
      in if m' = i then P else sift_down A n (P(i := P m', m' := P i)) m')"
  by pat_completeness auto
termination
  by (relation "measure (\<lambda>(A, n, P, i). n - i)") (auto split: if_splits)

declare sift_down.simps [simp del]

text \<open>
  Modelled from the spec: "\<open>make_heap()\<close>: heapify \<open>P[0..top_k)\<close> bottom-up", from the
  last inner node \<open>n div 2 - 1\<close> down to the root.
\<close>

fun make_heap_from :: "(nat \<Rightarrow> 16 word) \<Rightarrow> nat \<Rightarrow> (nat \<Rightarrow> nat) \<Rightarrow> nat \<Rightarrow> (nat \<Rightarrow> nat)" where
  "make_heap_from A n P 0 = P"
| "make_heap_from A n P (Suc i) = make_heap_from A n (sift_down A n P i) i"

definition make_heap :: "(nat \<Rightarrow> 16 word) \<Rightarrow> nat \<Rightarrow> (nat \<Rightarrow> nat) \<Rightarrow> (nat \<Rightarrow> nat)" where
  "make_heap A n P = make_heap_from A n P (n div 2)"

text \<open>
  Modelled from the spec: "\<open>promote(x)\<close>: given a pointer \<open>x\<close> known to already be in
  \<open>P\<close> and whose \<open>*x\<close> has just increased, sift \<open>x\<close> down from its current index",
  which a scan for pointer equality locates.
\<close>

definition promote :: "(nat \<Rightarrow> 16 word) \<Rightarrow> nat \<Rightarrow> (nat \<Rightarrow> nat) \<Rightarrow> nat \<Rightarrow> (nat \<Rightarrow> nat)" where
  "promote A n P x =
     (case find (\<lambda>i. P i = x) [0 ..< n] of
        None \<Rightarrow> P
      | Some i \<Rightarrow> sift_down A n P i)"

text \<open>
  Modelled from the spec: "\<open>push_back(x)\<close>: replace the root \<open>P[0]\<close> with \<open>x\<close> and sift
  down".
\<close>

definition push_back :: "(nat \<Rightarrow> 16 word) \<Rightarrow> nat \<Rightarrow> (nat \<Rightarrow> nat) \<Rightarrow> nat \<Rightarrow> (nat \<Rightarrow> nat)" where
  "push_back A n P x = sift_down A n (P(0 := x)) 0"

text \<open>
  Modelled from the spec: \<open>top_k_qsort.h\<close> is missing from the sources. "Given
  \<open>P[0..L)\<close> and the target \<open>top_k\<close>, produce \<open>P[0..min(L, top_k))\<close> sorted in descending
  order under \<open>\<prec>\<close>"; the remainder is left in unspecified order, for which the model
  takes the rest of the descending order.
\<close>

definition top_k_qsort :: "(nat \<Rightarrow> 16 word) \<Rightarrow> (nat \<Rightarrow> nat) \<Rightarrow> nat \<Rightarrow> nat \<Rightarrow> (nat \<Rightarrow> nat)" where
  "top_k_qsort A P L k =
     (let descending = rev (sort_key (key A) (map P [0 ..< L]))
      in (\<lambda>i. if i < L then descending ! i else P i))"

definition spec_externals :: externals where
  "spec_externals =
     \<lparr>ext_make_heap = make_heap, ext_promote = promote, ext_push_back = push_back,
      ext_top_k_qsort = top_k_qsort\<rparr>"

subsection \<open>The brute-force ranking\<close>

text \<open>
  The total of a document is the sum of the scores supplied for it; the brute-force
  answer lists the documents with a positive total in descending order of
  (total, document identifier) and keeps the first \<open>k\<close>.
\<close>

definition total_score :: "(nat \<times> 16 word) list \<Rightarrow> nat \<Rightarrow> nat" where
  "total_score ps d = sum_list (map (\<lambda>p. unat (snd p)) (filter (\<lambda>p. fst p = d) ps))"

definition ranking :: "(nat \<times> 16 word) list \<Rightarrow> nat \<Rightarrow> nat list" where
  "ranking ps documents =
     rev (sort_key (\<lambda>d. (total_score ps d, d)) (filter (\<lambda>d. 0 < total_score ps d) [0 ..< documents]))"

definition brute_force :: "string list \<Rightarrow> nat \<Rightarrow> nat \<Rightarrow> (nat \<times> 16 word) list \<Rightarrow> (nat \<times> string \<times> nat) list" where
  "brute_force keys documents k ps =
     map (\<lambda>d. (d, keys ! d, total_score ps d)) (take k (ranking ps documents))"

definition rsv_value :: "nat \<times> string \<times> 16 word \<Rightarrow> nat \<times> string \<times> nat" where
  "rsv_value r = (fst r, fst (snd r), unat (snd (snd r)))"

subsection \<open>Sequences of calls\<close>

datatype call = Add_rsv nat "16 word" | Rewind

fun calls :: "externals \<Rightarrow> engine \<Rightarrow> call list \<Rightarrow> fault + engine" where
  "calls x e [] = Inr e"
| "calls x e (Add_rsv docid score # cs) =
     (case add_rsv x e docid score of Inl f \<Rightarrow> Inl f | Inr e' \<Rightarrow> calls x e' cs)"
| "calls x e (Rewind # cs) =
     (case rewind e of Inl f \<Rightarrow> Inl f | Inr e' \<Rightarrow> calls x e' cs)"

text \<open>
  The cell of a document in a dirty strip that has not been added to since the rewind is
  zero.
\<close>

definition untouched_zero :: "engine \<Rightarrow> nat set \<Rightarrow> bool" where
  "untouched_zero e added \<longleftrightarrow>
     (\<forall>d. clean_flags e (drop_bit (accumulators_shift e) d) \<noteq> 0 \<and> d \<notin> added
          \<longrightarrow> accumulators e d = 0)"

text \<open>
  The engine of the unit-test collection: the static version constructed for 10
  documents and \<open>top_k = 10\<close> at program start.
\<close>

definition unittest_engine :: engine where
  "unittest_engine =
     \<lparr>variant = Static_arrays, clean_flags = (\<lambda>_. 0), accumulators = (\<lambda>_. 0),
      accumulator_pointers = (\<lambda>_. 0), accumulators_shift = 1, accumulators_width = 2,
      accumulators_height = 6, results_list_length = 0, top_k = 10,
      primary_keys = [''d0'', ''d1'', ''d2'', ''d3'', ''d4'', ''d5'', ''d6'', ''d7'', ''d8'', ''d9'']\<rparr>"

subsection \<open>Heap order\<close>

text \<open>
  Node \<open>i\<close> of the implicit binary tree in \<open>P[0..n)\<close> is in order when it is not above
  either of its children under \<open>\<prec>\<close>; the array is a min-heap when every node is.
\<close>

definition node_ok :: "(nat \<Rightarrow> 16 word) \<Rightarrow> nat \<Rightarrow> (nat \<Rightarrow> nat) \<Rightarrow> nat \<Rightarrow> bool" where
  "node_ok A n P i \<longleftrightarrow>
     (2 * i + 1 < n \<longrightarrow> key A (P i) \<le> key A (P (2 * i + 1))) \<and>
     (2 * i + 2 < n \<longrightarrow> key A (P i) \<le> key A (P (2 * i + 2)))"

definition is_heap :: "(nat \<Rightarrow> 16 word) \<Rightarrow> nat \<Rightarrow> (nat \<Rightarrow> nat) \<Rightarrow> bool" where
  "is_heap A n P \<longleftrightarrow> (\<forall>i. node_ok A n P i)"

subsection \<open>The invariant of a query\<close>

text \<open>
  The logical value of a cell: zero while its strip is clean, whatever the memory holds.
\<close>

definition val :: "engine \<Rightarrow> nat \<Rightarrow> 16 word" where
  "val e d =
     (if clean_flags e (drop_bit (accumulators_shift e) d) = 0 then 0 else accumulators e d)"

definition cells :: "engine \<Rightarrow> nat" where
  "cells e = accumulators_width e * accumulators_height e"

text \<open>
  An engine is laid out for \<open>documents\<close> documents when its strips cover them, its arrays
  hold the strips, the flags and \<open>top_k\<close> pointers, the heap spans exactly \<open>top_k\<close>
  pointers, and every document has a primary key.
\<close>

definition well_formed :: "engine \<Rightarrow> nat \<Rightarrow> bool" where
  "well_formed e documents \<longleftrightarrow>
     accumulators_width e = 2 ^ accumulators_shift e \<and>
     documents \<le> cells e \<and>
     accumulators_height e \<le> clean_flags_extent e \<and>
     cells e \<le> accumulators_extent e \<and>
     1 \<le> top_k e \<and>
     top_k e \<le> accumulator_pointers_extent e \<and>
     heap_size e = top_k e \<and>
     documents \<le> length (primary_keys e)"

definition tracked :: "engine \<Rightarrow> nat set" where
  "tracked e = accumulator_pointers e ` {..<results_list_length e}"

definition positive :: "nat \<Rightarrow> (nat \<times> 16 word) list \<Rightarrow> nat set" where
  "positive documents ps = {d. d < documents \<and> 0 < total_score ps d}"

text \<open>
  The state after \<open>rewind()\<close> and the calls \<open>ps\<close>: every cell holds the total of its
  document; the tracked pointers are distinct and point to documents with a positive
  total; while the list is not full all such documents are tracked; once it is full the
  pointers form a min-heap and every cell outside it is below the root.
\<close>

definition ranking_inv :: "engine \<Rightarrow> nat \<Rightarrow> (nat \<times> 16 word) list \<Rightarrow> bool" where
  "ranking_inv e documents ps \<longleftrightarrow>
     well_formed e documents \<and>
     (\<forall>p \<in> set ps. fst p < documents) \<and>
     (\<forall>d < cells e. unat (val e d) = total_score ps d) \<and>
     results_list_length e \<le> top_k e \<and>
     inj_on (accumulator_pointers e) {..<results_list_length e} \<and>
     tracked e \<subseteq> positive documents ps \<and>
     (results_list_length e < top_k e \<longrightarrow> positive documents ps \<subseteq> tracked e) \<and>
     (results_list_length e = top_k e \<longrightarrow>
        is_heap (accumulators e) (top_k e) (accumulator_pointers e) \<and>
        (\<forall>d < cells e. d \<notin> tracked e \<longrightarrow>
             key (val e) d < key (accumulators e) (accumulator_pointers e 0)))"

subsection \<open>A query\<close>

text \<open>
  The contract with the term iterator: per query, \<open>rewind()\<close>, then \<open>add_rsv\<close> for each
  posting, then the iteration over the results; \<open>rsv_value\<close> reads the 16-bit score of a
  result as a number.
\<close>

definition run_query :: "externals \<Rightarrow> engine \<Rightarrow> (nat \<times> 16 word) list \<Rightarrow> fault + (nat \<times> string \<times> nat) list" where
  "run_query x e ps =
     (case rewind e of
        Inl f \<Rightarrow> Inl f
      | Inr e0 \<Rightarrow>
          (case add_rsv_all x e0 ps of
             Inl f \<Rightarrow> Inl f
           | Inr e1 \<Rightarrow>
               (case results x e1 of Inl f \<Rightarrow> Inl f | Inr rs \<Rightarrow> Inr (map rsv_value rs))))"

text \<open>
  The allocating version constructed at program start for the 10 documents of the
  specification's scenarios, with \<open>top_k = k\<close>.
\<close>

definition scenario_engine :: "nat \<Rightarrow> engine" where
  "scenario_engine k =
     \<lparr>variant = Allocated_arrays, clean_flags = (\<lambda>_. 0), accumulators = (\<lambda>_. 0),
      accumulator_pointers = (\<lambda>_. 0), accumulators_shift = 1, accumulators_width = 2,
      accumulators_height = 6, results_list_length = 0, top_k = k,
      primary_keys = [''d0'', ''d1'', ''d2'', ''d3'', ''d4'', ''d5'', ''d6'', ''d7'', ''d8'', ''d9'']\<rparr>"




section \<open>The arena allocator\<close>

text \<open>
  \<open>allocator_memory::malloc(size_t bytes, size_t alignment)\<close> bumps the atomic cursor
  \<open>used\<close> of a fixed buffer. Sizes and addresses are \<open>size_t\<close>, 64 bits wide. Run by
  one thread, \<open>compare_exchange_strong\<close> succeeds on the first turn of the loop. When
  the request does not fit, the statement in front of \<open>return nullptr\<close> is
  \<open>exit(printf(...))\<close>, whose guard \<open>#ifdef NEVER\<close> is commented out: the process
  ends there.
\<close>

record allocator_memory =
  buffer :: "64 word"
  used :: "64 word"
  allocated :: "64 word"

datatype 'a outcome = Exit | Return 'a

text \<open>
  Modelled from the spec: the two-argument \<open>realign\<close> is declared in a header that is
  missing from the sources; the padding is "the leading bytes needed to reach the
  requested alignment", the formula of \<open>allocator_memory::realign(void)\<close> in
  \<open>source/allocator_memory.cpp\<close>.
\<close>

definition realign :: "64 word \<Rightarrow> 64 word \<Rightarrow> 64 word" where
  "realign address boundary =
     (if address mod boundary = 0 then 0 else boundary - address mod boundary)"

definition malloc :: "allocator_memory \<Rightarrow> 64 word \<Rightarrow> 64 word \<Rightarrow> (64 word option \<times> allocator_memory) outcome" where
  "malloc m bytes alignment =
     (let already_used = used m;
          padding = (if alignment = 1 then 0 else realign already_used alignment)
      in if already_used + bytes + padding > allocated m then Exit
         else Return (Some (buffer m + already_used + padding),
                      m\<lparr>used := already_used + bytes + padding\<rparr>))"

section \<open>Properties\<close>

subsection \<open>Strip geometry\<close>

text \<open>The two integer functions are the floors of the square root and the logarithm.\<close>

lemma floor_sqrt_bounds: "floor_sqrt n * floor_sqrt n \<le> n \<and> n < (floor_sqrt n + 1) * (floor_sqrt n + 1)"
proof (induction n rule: floor_sqrt.induct)
  case (1 n)
  show ?case
  proof (cases "n = 0")
    case True
    then show ?thesis by (simp add: floor_sqrt.simps)
  next
    case False
    define q where "q = floor_sqrt (n div 4)"
    have ih: "q * q \<le> n div 4" "n div 4 < (q + 1) * (q + 1)"
      using "1.IH" False by (simp_all add: q_def)
    have eq: "floor_sqrt n = (if (2 * q + 1) * (2 * q + 1) \<le> n then 2 * q + 1 else 2 * q)"
      using False by (subst floor_sqrt.simps) (simp add: Let_def q_def)
    have "4 * (q * q) \<le> 4 * (n div 4)" using ih(1) by simp
    also have "\<dots> \<le> n" by presburger
    finally have lo: "(2 * q) * (2 * q) \<le> n" by (simp add: algebra_simps)
    have "n div 4 + 1 \<le> (q + 1) * (q + 1)" using ih(2) by simp
    then have "4 * (n div 4) + 4 \<le> 4 * ((q + 1) * (q + 1))" by simp
    moreover have "n < 4 * (n div 4) + 4" by presburger
    ultimately have hi: "n < (2 * q + 2) * (2 * q + 2)" by (simp add: algebra_simps)
    show ?thesis
    proof (cases "(2 * q + 1) * (2 * q + 1) \<le> n")
      case True
      then have "floor_sqrt n = 2 * q + 1" using eq by simp
      then show ?thesis using True hi by (simp add: algebra_simps)
    next
      case False
      then have "floor_sqrt n = 2 * q" using eq by simp
      then show ?thesis using False lo by (simp add: algebra_simps)
    qed
  qed
qed

lemma floor_log2_bounds: "0 < n \<Longrightarrow> 2 ^ floor_log2 n \<le> n \<and> n < 2 ^ (floor_log2 n + 1)"
proof (induction n rule: floor_log2.induct)
  case (1 n)
  show ?case
  proof (cases "n < 2")
    case True
    with "1.prems" show ?thesis by (simp add: floor_log2.simps)
  next
    case False
    then have "0 < n div 2" by simp
    with "1.IH" False have ih: "2 ^ floor_log2 (n div 2) \<le> n div 2" "n div 2 < 2 ^ (floor_log2 (n div 2) + 1)"
      by simp_all
    have eq: "floor_log2 n = Suc (floor_log2 (n div 2))"
      using False by (subst floor_log2.simps) simp
    have "2 * 2 ^ floor_log2 (n div 2) \<le> 2 * (n div 2)" using ih(1) by simp
    also have "\<dots> \<le> n" by presburger
    finally have lo: "2 ^ floor_log2 n \<le> n" by (simp add: eq)
    have "n div 2 + 1 \<le> 2 ^ (floor_log2 (n div 2) + 1)" using ih(2) by simp
    then have "2 * (n div 2) + 2 \<le> 2 * 2 ^ (floor_log2 (n div 2) + 1)" by simp
    moreover have "n < 2 * (n div 2) + 2" by presburger
    ultimately have "n < 2 ^ (floor_log2 n + 1)" by (simp add: eq)
    with lo show ?thesis by simp
  qed
qed

lemma strip_bounds:
  fixes w d n :: nat
  assumes "0 < w" "d < n"
  shows "d div w < (n + w) div w" "d < w * ((n + w) div w)"
proof -
  have h: "(n + w) div w = n div w + 1" using assms(1) by (simp add: div_add_self2)
  have "d div w \<le> n div w" using assms(2) by (simp add: div_le_mono)
  then show "d div w < (n + w) div w" using h by simp
  have "n < w * (n div w) + w"
    using assms(1) by (metis add.commute mod_less_divisor mult.commute div_mult_mod_eq add_less_cancel_left)
  then show "d < w * ((n + w) div w)" using assms(2) h by (simp add: algebra_simps)
qed


lemma shift_of_10: "shift_of 10 = 1" by code_simp


subsection \<open>The comparator\<close>

lemma add_rsv_compare_key:
  "add_rsv_compare A a b =
     (if key A b < key A a then 1 else if key A a < key A b then - 1 else 0)"
  by (auto simp: add_rsv_compare_def key_def less_prod_def)

lemma add_rsv_compare_static_sgn:
  assumes "a < 2 ^ 31" and "b < 2 ^ 31"
  shows "sgn (add_rsv_compare_static A a b) = add_rsv_compare A a b"
proof -
  have "- (2 ^ 31) \<le> int a - int b" "int a - int b < 2 ^ 31"
    using assms by simp_all
  then have "signed_take_bit 31 (int a - int b) = int a - int b"
    by (rule signed_take_bit_int_eq_self)
  then show ?thesis
    by (auto simp: add_rsv_compare_static_def add_rsv_compare_def)
qed

text \<open>
  C6 (amended). The comparator orders cells by (score, address): the version of
  \<open>source/query_atire_global.h\<close> returns exactly \<open>1\<close>, \<open>-1\<close> or \<open>0\<close>, and \<open>0\<close> only for
  \<open>a = b\<close>; the version with static arrays returns a value of the same sign (on a score
  tie, the pointer difference) for cells of an array of fewer than \<open>2 ^ 31\<close> elements.
\<close>

theorem add_rsv_compare_order:
  "add_rsv_compare A a b =
     (if key A b < key A a then 1 else if key A a < key A b then - 1 else 0)
   \<and> (add_rsv_compare A a b = 0 \<longleftrightarrow> a = b)
   \<and> (A a = A b \<and> b < a \<longrightarrow> add_rsv_compare A a b = 1)
   \<and> (a < 2 ^ 31 \<and> b < 2 ^ 31 \<longrightarrow>
        sgn (add_rsv_compare_static A a b) = add_rsv_compare A a b)"
  using add_rsv_compare_static_sgn [of a b A]
  by (auto simp: add_rsv_compare_key) (auto simp: add_rsv_compare_def key_def)

theorem add_rsv_compare_order_witness:
  "sgn (add_rsv_compare_static (accumulators program_start) 5 2) = 1
   \<and> add_rsv_compare (accumulators program_start) 5 2 = 1"
  using add_rsv_compare_order [of "accumulators program_start" 5 2]
  by (simp add: key_def less_prod_def program_start_def)

theorem add_rsv_compare_static_counterexample:
  "add_rsv_compare_static (accumulators program_start) 5 2 = 3"
  by (simp add: add_rsv_compare_static_def program_start_def)

subsection \<open>Construction\<close>

lemma shift_of_1024: "shift_of 1024 = 5" by code_simp

lemma constructed_small:
  assumes "documents < 2 ^ 32"
  shows "constructed_shift v documents = shift_of documents"
    and "constructed_width v documents = width_of documents"
    and "constructed_height v documents = height_of documents"
proof -
  have s: "2 ^ shift_of documents \<le> documents \<or> shift_of documents = 0"
  proof (cases "floor_sqrt documents = 0")
    case True
    then show ?thesis by (simp add: shift_of_def floor_log2.simps)
  next
    case False
    then have "2 ^ shift_of documents \<le> floor_sqrt documents"
      using floor_log2_bounds [of "floor_sqrt documents"] by (simp add: shift_of_def)
    also have "floor_sqrt documents \<le> floor_sqrt documents * floor_sqrt documents"
      using False by simp
    also have "\<dots> \<le> documents" using floor_sqrt_bounds by simp
    finally show ?thesis by simp
  qed
  then have w: "(2::nat) ^ shift_of documents < 2 ^ 32"
    using assms by (auto intro: le_less_trans)
  then have "shift_of documents < 32"
    using power_strict_increasing_iff [of "2::nat" "shift_of documents" 32] by simp
  then have s32: "shift_of documents < 2 ^ 32" "shift_of documents < 2 ^ 64"
    by (simp_all add: less_trans [where y = "(32::nat)"])
  have w64: "(2::nat) ^ shift_of documents < 2 ^ 64"
    using w by (simp add: less_trans [where y = "(2::nat) ^ 32"])
  have 1: "constructed_shift u documents = shift_of documents" for u
    using s32 by (cases u) (simp_all add: constructed_shift_def field_of_def)
  have 2: "constructed_width u documents = width_of documents" for u
    using w w64 by (cases u) (simp_all add: constructed_width_def 1 width_of_def field_of_def)
  show "constructed_shift v documents = shift_of documents" by (rule 1)
  show "constructed_width v documents = width_of documents" by (rule 2)
  have "documents + width_of documents < 2 ^ 33"
    using assms w by (simp add: width_of_def)
  then have d64: "documents + width_of documents < 2 ^ 64"
    by (simp add: less_trans [where y = "(2::nat) ^ 33"])
  have "0 < width_of documents" by (simp add: width_of_def)
  have hq: "height_of documents = documents div width_of documents + 1"
    using \<open>0 < width_of documents\<close> by (simp add: height_of_def div_add_self2)
  have h: "height_of documents < 2 ^ 32"
  proof (cases "documents = 0")
    case True
    then show ?thesis using \<open>0 < width_of documents\<close> by (simp add: height_of_def)
  next
    case False
    show ?thesis
    proof (cases "width_of documents = 1")
      case True
      then have "shift_of documents = 0" by (simp add: width_of_def)
      then have "floor_sqrt documents < 2"
        using floor_log2_bounds [of "floor_sqrt documents"] False
        by (cases "floor_sqrt documents = 0") (simp_all add: shift_of_def)
      then have "documents < 4"
        using floor_sqrt_bounds [of documents]
        by (cases "floor_sqrt documents = 0"; cases "floor_sqrt documents = 1") simp_all
      then show ?thesis using True by (simp add: height_of_def)
    next
      case False
      then have "2 \<le> width_of documents" using \<open>0 < width_of documents\<close> by simp
      then have "documents div width_of documents \<le> documents div 2"
        by (simp add: div_le_mono2)
      then show ?thesis
        using assms hq by simp
    qed
  qed
  then have "height_of documents < 2 ^ 64"
    by (simp add: less_trans [where y = "(2::nat) ^ 32"])
  then show "constructed_height v documents = height_of documents"
    using h d64 by (cases v) (simp_all add: constructed_height_def 2 height_of_def field_of_def)
qed

text \<open>
  C10. With the default \<open>documents = 1024\<close> the static version computes
  \<open>accumulators_height = 33\<close>, and the \<open>rewind()\<close> of its constructor clears 33 flags
  of \<open>clean_flags[10]\<close>.
\<close>

theorem static_constructor_default_overruns:
  "constructed_height Static_arrays 1024 = 33
   \<and> query_atire_global Static_arrays program_start keys 1024 10 = Inl Out_of_bounds"
proof -
  have h: "constructed_height Static_arrays 1024 = 33"
    by (simp add: constructed_small height_of_def width_of_def shift_of_1024)
  then show ?thesis
    by (simp add: query_atire_global_def rewind_def clean_flags_extent_def Let_def)
qed







section \<open>Properties of the allocator\<close>

text \<open>
  C9. A request that does not fit ends the process; \<open>malloc\<close> does not return null.
\<close>

theorem malloc_out_of_memory_exits:
  "malloc \<lparr>buffer = 4096, used = 0, allocated = 1024\<rparr> 2000 1 = Exit"
  by (simp add: malloc_def)

lemma malloc_never_null: "malloc m bytes alignment \<noteq> Return (None, m')"
  by (simp add: malloc_def Let_def)

lemma malloc_wraps:
  "malloc \<lparr>buffer = 4096, used = 16, allocated = 1024\<rparr> (- 8) 1
     = Return (Some 4112, \<lparr>buffer = 4096, used = 8, allocated = 1024\<rparr>)"
  by (simp add: malloc_def)

subsection \<open>What the operations leave unchanged\<close>

lemma touch_Inr:
  assumes "touch e docid = Inr e1"
  shows "drop_bit (accumulators_shift e) docid < clean_flags_extent e"
    and "variant e1 = variant e"
    and "accumulator_pointers e1 = accumulator_pointers e"
    and "accumulators_shift e1 = accumulators_shift e"
    and "accumulators_width e1 = accumulators_width e"
    and "accumulators_height e1 = accumulators_height e"
    and "results_list_length e1 = results_list_length e"
    and "top_k e1 = top_k e"
    and "primary_keys e1 = primary_keys e"
    and "clean_flags e1 = (clean_flags e)(drop_bit (accumulators_shift e) docid :=
           (if clean_flags e (drop_bit (accumulators_shift e) docid) = 0 then 1
            else clean_flags e (drop_bit (accumulators_shift e) docid)))"
    and "accumulators e1 =
           (if clean_flags e (drop_bit (accumulators_shift e) docid) = 0
            then (\<lambda>i. if accumulators_width e * drop_bit (accumulators_shift e) docid \<le> i \<and>
                         i < accumulators_width e * drop_bit (accumulators_shift e) docid
                             + accumulators_width e
                      then 0 else accumulators e i)
            else accumulators e)"
  using assms by (auto simp: touch_def Let_def split: if_splits)

lemma touch_extents:
  assumes "touch e docid = Inr e1"
  shows "clean_flags_extent e1 = clean_flags_extent e"
    and "accumulators_extent e1 = accumulators_extent e"
    and "accumulator_pointers_extent e1 = accumulator_pointers_extent e"
    and "heap_size e1 = heap_size e"
  using touch_Inr [OF assms]
  by (cases "variant e"; simp add: clean_flags_extent_def accumulators_extent_def
      accumulator_pointers_extent_def heap_size_def)+

lemma add_rsv_Inr:
  assumes "add_rsv x e docid score = Inr e'"
  obtains e1 where "touch e docid = Inr e1"
    and "docid < accumulators_extent e"
    and "clean_flags e' = clean_flags e1"
    and "accumulators e' = (accumulators e1)(docid := accumulators e1 docid + score)"
    and "variant e' = variant e"
    and "accumulators_shift e' = accumulators_shift e"
    and "accumulators_width e' = accumulators_width e"
    and "accumulators_height e' = accumulators_height e"
    and "top_k e' = top_k e"
    and "primary_keys e' = primary_keys e"
    and "results_list_length e' = results_list_length e \<or>
         results_list_length e < top_k e \<and> results_list_length e' = results_list_length e + 1"
proof -
  obtain e1 where t: "touch e docid = Inr e1"
    using assms by (auto simp: add_rsv_def split: sum.splits)
  note f = touch_Inr [OF t] touch_extents [OF t]
  have "docid < accumulators_extent e"
    using assms t f by (auto simp: add_rsv_def split: if_splits)
  moreover have "clean_flags e' = clean_flags e1
    \<and> accumulators e' = (accumulators e1)(docid := accumulators e1 docid + score)
    \<and> variant e' = variant e1 \<and> accumulators_shift e' = accumulators_shift e1
    \<and> accumulators_width e' = accumulators_width e1
    \<and> accumulators_height e' = accumulators_height e1
    \<and> top_k e' = top_k e1 \<and> primary_keys e' = primary_keys e1
    \<and> (results_list_length e' = results_list_length e1 \<or>
         results_list_length e1 < top_k e1 \<and> results_list_length e' = results_list_length e1 + 1)"
    using assms t by (auto simp: add_rsv_def Let_def split: if_splits)
  ultimately show ?thesis using that [OF t] f by simp
qed

lemma rewind_Inr:
  assumes "rewind e = Inr e'"
  shows "e' = e\<lparr>results_list_length := 0,
                  clean_flags := (\<lambda>s. if s < accumulators_height e then 0 else clean_flags e s)\<rparr>"
  using assms by (auto simp: rewind_def split: if_splits)


subsection \<open>The length of the result list\<close>





lemmas eval_defs = touch_def add_rsv_def rewind_def Let_def clean_flags_extent_def
  accumulators_extent_def accumulator_pointers_extent_def heap_size_def drop_bit_eq_div




subsection \<open>Lazy clearing\<close>

lemma strip_range:
  fixes d :: nat
  shows "2 ^ s * drop_bit s d \<le> d \<and> d < 2 ^ s * drop_bit s d + 2 ^ s"
proof -
  have "d = 2 ^ s * (d div 2 ^ s) + d mod 2 ^ s" by simp
  moreover have "d mod 2 ^ s < 2 ^ s" by simp
  ultimately show ?thesis unfolding drop_bit_eq_div by linarith
qed

lemma strip_range_iff:
  fixes d :: nat
  shows "2 ^ s * t \<le> d \<and> d < 2 ^ s * t + 2 ^ s \<longleftrightarrow> drop_bit s d = t"
proof
  assume a: "2 ^ s * t \<le> d \<and> d < 2 ^ s * t + 2 ^ s"
  then have "t \<le> d div 2 ^ s"
    by (metis div_le_mono nonzero_mult_div_cancel_left power_not_zero zero_neq_numeral)
  moreover have "d < 2 ^ s * (t + 1)" using a by (simp add: algebra_simps)
  then have "d div 2 ^ s < t + 1"
    by (simp add: less_mult_imp_div_less mult.commute)
  ultimately show "drop_bit s d = t" by (simp add: drop_bit_eq_div)
next
  assume "drop_bit s d = t"
  then show "2 ^ s * t \<le> d \<and> d < 2 ^ s * t + 2 ^ s" using strip_range [of s d] by simp
qed

lemma touch_untouched_zero:
  assumes "touch e docid = Inr e1"
    and "accumulators_width e = 2 ^ accumulators_shift e"
    and "untouched_zero e added"
  shows "untouched_zero e1 added" and "docid \<notin> added \<Longrightarrow> accumulators e1 docid = 0"
    and "clean_flags e1 (drop_bit (accumulators_shift e) docid) \<noteq> 0"
proof -
  note f = touch_Inr [OF assms(1)]
  let ?S = "accumulators_shift e"
  show "untouched_zero e1 added"
    unfolding untouched_zero_def
  proof (intro allI impI)
    fix d assume d: "clean_flags e1 (drop_bit (accumulators_shift e1) d) \<noteq> 0 \<and> d \<notin> added"
    show "accumulators e1 d = 0"
    proof (cases "drop_bit ?S d = drop_bit ?S docid \<and> clean_flags e (drop_bit ?S docid) = 0")
      case True
      then show ?thesis
        using f(11) assms(2) strip_range [of ?S d] by simp
    next
      case False
      then have "clean_flags e (drop_bit ?S d) \<noteq> 0"
        using d f(4,10) by (auto split: if_splits)
      then have "accumulators e d = 0" using assms(3) d by (simp add: untouched_zero_def)
      then show ?thesis using f(11) by simp
    qed
  qed
  then show "docid \<notin> added \<Longrightarrow> accumulators e1 docid = 0"
    using f(4,10) by (auto simp: untouched_zero_def)
  show "clean_flags e1 (drop_bit (accumulators_shift e) docid) \<noteq> 0"
    using f(10) by simp
qed

lemma add_rsv_untouched_zero:
  assumes "add_rsv x e docid score = Inr e'"
    and "accumulators_width e = 2 ^ accumulators_shift e"
    and "untouched_zero e added"
  shows "untouched_zero e' (insert docid added)"
proof (rule add_rsv_Inr [OF assms(1)])
  fix e1
  assume t: "touch e docid = Inr e1"
    and c: "clean_flags e' = clean_flags e1"
    and a: "accumulators e' = (accumulators e1)(docid := accumulators e1 docid + score)"
    and s: "accumulators_shift e' = accumulators_shift e"
  have "untouched_zero e1 added" using touch_untouched_zero(1) [OF t assms(2,3)] .
  then show ?thesis
    using c a s touch_Inr(4) [OF t] by (auto simp: untouched_zero_def)
qed

lemma add_rsv_all_untouched_zero:
  assumes "add_rsv_all x e ps = Inr e'"
    and "accumulators_width e = 2 ^ accumulators_shift e"
    and "untouched_zero e added"
  shows "untouched_zero e' (added \<union> fst ` set ps)
         \<and> accumulators_width e' = accumulators_width e
         \<and> accumulators_shift e' = accumulators_shift e"
  using assms
proof (induction ps arbitrary: e added)
  case Nil
  then show ?case by simp
next
  case (Cons p ps)
  from Cons.prems(1) obtain e1 where e1: "add_rsv x e (fst p) (snd p) = Inr e1"
      "add_rsv_all x e1 ps = Inr e'"
    by (auto split: sum.splits)
  have w: "accumulators_width e1 = accumulators_width e"
      "accumulators_shift e1 = accumulators_shift e"
    by (rule add_rsv_Inr [OF e1(1)]; simp)+
  have "untouched_zero e1 (insert (fst p) added)"
    using add_rsv_untouched_zero [OF e1(1) Cons.prems(2,3)] .
  then show ?case
    using Cons.IH [OF e1(2), of "insert (fst p) added"] w Cons.prems(2) by simp
qed

text \<open>
  C5. After \<open>rewind()\<close> the result list is empty and the flags of all
  \<open>accumulators_height\<close> strips are zero; whatever was added in between, the first
  \<open>add_rsv\<close> for a document finds its cell zero after the first block (this is the
  \<open>old_value\<close> it reads), and leaves exactly the score in it.
\<close>

theorem first_add_rsv_reads_zero:
  assumes "accumulators_width e = 2 ^ accumulators_shift e"
    and "rewind e = Inr e0"
    and "add_rsv_all x e0 ps = Inr e1"
    and "docid \<notin> fst ` set ps"
    and "drop_bit (accumulators_shift e) docid < accumulators_height e"
  shows "results_list_length e0 = 0
         \<and> (\<forall>s < accumulators_height e0. clean_flags e0 s = 0)
         \<and> (\<forall>e2. touch e1 docid = Inr e2 \<longrightarrow> accumulators e2 docid = 0)
         \<and> (\<forall>e3. add_rsv x e1 docid score = Inr e3 \<longrightarrow> accumulators e3 docid = score)"
proof -
  note r = rewind_Inr [OF assms(2)]
  have w0: "accumulators_width e0 = 2 ^ accumulators_shift e0" using r assms(1) by simp
  have "untouched_zero e0 {d. accumulators_height e \<le> drop_bit (accumulators_shift e) d}"
    using r by (auto simp: untouched_zero_def)
  from add_rsv_all_untouched_zero [OF assms(3) w0 this]
  have u: "untouched_zero e1
             ({d. accumulators_height e \<le> drop_bit (accumulators_shift e) d} \<union> fst ` set ps)"
    and w1: "accumulators_width e1 = 2 ^ accumulators_shift e1"
    using w0 by simp_all
  have n: "docid \<notin> {d. accumulators_height e \<le> drop_bit (accumulators_shift e) d} \<union> fst ` set ps"
    using assms(4,5) by simp
  have z: "accumulators e2 docid = 0" if "touch e1 docid = Inr e2" for e2
    using touch_untouched_zero(2) [OF that w1 u n] .
  have "accumulators e3 docid = score" if "add_rsv x e1 docid score = Inr e3" for e3
    by (rule add_rsv_Inr [OF that]) (simp add: z)
  then show ?thesis using r z by simp
qed

theorem first_add_rsv_reads_zero_witness:
  "\<exists>e0 e1 e3. rewind unittest_engine = Inr e0
      \<and> add_rsv_all spec_externals e0 [(3, 5)] = Inr e1
      \<and> add_rsv spec_externals e1 8 7 = Inr e3 \<and> accumulators e3 8 = 7"
proof -
  have "\<exists>e0 e1 e3. rewind unittest_engine = Inr e0
      \<and> add_rsv_all spec_externals e0 [(3, 5)] = Inr e1
      \<and> add_rsv spec_externals e1 8 7 = Inr e3"
    by (simp add: unittest_engine_def eval_defs cong: if_cong)
  then obtain e0 e1 e3 where e0: "rewind unittest_engine = Inr e0"
    and e1: "add_rsv_all spec_externals e0 [(3, 5)] = Inr e1"
    and e3: "add_rsv spec_externals e1 8 7 = Inr e3"
    by blast
  have "accumulators e3 8 = 7"
    using first_add_rsv_reads_zero [OF _ e0 e1, of 8 7] e3
    by (simp add: unittest_engine_def drop_bit_eq_div)
  then show ?thesis using e0 e1 e3 by blast
qed

subsection \<open>The heap operations\<close>

lemma sift_down_unfold:
  "sift_down A n P i =
     (let l = 2 * i + 1;
          r = 2 * i + 2;
          m = (if l < n \<and> key A (P l) < key A (P i) then l else i);
          m' = (if r < n \<and> key A (P r) < key A (P m) then r else m)
      in if m' = i then P else sift_down A n (P(i := P m', m' := P i)) m')"
  by (rule sift_down.simps)

lemma swap_image:
  fixes P :: "nat \<Rightarrow> nat"
  assumes "i < n" and "t < n"
  shows "(P(i := P t, t := P i)) ` {..<n} = P ` {..<n}"
proof (rule set_eqI)
  fix y
  show "y \<in> (P(i := P t, t := P i)) ` {..<n} \<longleftrightarrow> y \<in> P ` {..<n}"
  proof
    assume "y \<in> (P(i := P t, t := P i)) ` {..<n}"
    then obtain j where "j < n" "y = (P(i := P t, t := P i)) j" by auto
    then show "y \<in> P ` {..<n}" using assms by (auto split: if_splits)
  next
    assume "y \<in> P ` {..<n}"
    then obtain j where j: "j < n" "y = P j" by auto
    define j' where "j' = (if j = i then t else if j = t then i else j)"
    have "j' < n" "(P(i := P t, t := P i)) j' = y"
      using j assms by (auto simp: j'_def)
    then show "y \<in> (P(i := P t, t := P i)) ` {..<n}" by (metis imageI lessThan_iff)
  qed
qed

lemma sift_down_image:
  "i < n \<Longrightarrow> sift_down A n P i ` {..<n} = P ` {..<n}"
proof (induction A n P i rule: sift_down.induct)
  case (1 A n P i)
  define l where "l = 2 * i + 1"
  define r where "r = 2 * i + 2"
  define s where "s = (if l < n \<and> key A (P l) < key A (P i) then l else i)"
  define t where "t = (if r < n \<and> key A (P r) < key A (P s) then r else s)"
  have unfold: "sift_down A n P i = (if t = i then P else sift_down A n (P(i := P t, t := P i)) t)"
    by (subst sift_down_unfold) (simp add: Let_def l_def r_def s_def t_def)
  show ?case
  proof (cases "t = i")
    case True
    then show ?thesis using unfold by simp
  next
    case False
    have tn: "t < n" using False "1.prems" by (auto simp: s_def t_def split: if_splits)
    have "sift_down A n (P(i := P t, t := P i)) t ` {..<n} = (P(i := P t, t := P i)) ` {..<n}"
      using "1.IH" [OF l_def r_def s_def t_def False tn] .
    then show ?thesis using unfold False swap_image [OF "1.prems" tn] by simp
  qed
qed

lemma sift_down_heap:
  assumes "\<forall>j\<ge>m. j \<noteq> i \<longrightarrow> node_ok A n P j"
    and "\<forall>p\<ge>m. \<forall>c<n. (i = 2 * p + 1 \<or> i = 2 * p + 2) \<and> (c = 2 * i + 1 \<or> c = 2 * i + 2)
           \<longrightarrow> key A (P p) \<le> key A (P c)"
    and "m \<le> i"
  shows "\<forall>j\<ge>m. node_ok A n (sift_down A n P i) j"
  using assms
proof (induction A n P i rule: sift_down.induct)
  case (1 A n P i)
  define l where "l = 2 * i + 1"
  define r where "r = 2 * i + 2"
  define s where "s = (if l < n \<and> key A (P l) < key A (P i) then l else i)"
  define t where "t = (if r < n \<and> key A (P r) < key A (P s) then r else s)"
  have unfold: "sift_down A n P i = (if t = i then P else sift_down A n (P(i := P t, t := P i)) t)"
    by (subst sift_down_unfold) (simp add: Let_def l_def r_def s_def t_def)
  show ?case
  proof (cases "t = i")
    case True
    then have "node_ok A n P i"
      by (auto simp: node_ok_def l_def r_def s_def t_def split: if_splits)
    then have "\<forall>j\<ge>m. node_ok A n P j" using "1.prems"(1) by blast
    then show ?thesis using unfold True by simp
  next
    case False
    let ?P' = "P(i := P t, t := P i)"
    have t: "t = l \<or> t = r" "t < n" "key A (P t) < key A (P i)"
      and least: "l < n \<longrightarrow> key A (P t) \<le> key A (P l)" "r < n \<longrightarrow> key A (P t) \<le> key A (P r)"
      using False by (auto simp: s_def t_def split: if_splits)
    have ti: "i < t" using t(1) by (auto simp: l_def r_def)
    have a: "\<forall>j\<ge>m. j \<noteq> t \<longrightarrow> node_ok A n ?P' j"
    proof (intro allI impI)
      fix j assume j: "m \<le> j" "j \<noteq> t"
      show "node_ok A n ?P' j"
      proof (cases "j = i")
        case True
        then show ?thesis
          using t least ti by (auto simp: node_ok_def l_def r_def)
      next
        case False
        then have ok: "node_ok A n P j" using "1.prems"(1) j by blast
        have c1: "2 * j + 1 \<noteq> t" "2 * j + 2 \<noteq> t"
          using False t(1) by (auto simp: l_def r_def)
        have "key A (P j) \<le> key A (P t)" if "2 * j + 1 = i \<or> 2 * j + 2 = i"
          using "1.prems"(2) j(1) t(1,2) that unfolding l_def r_def by blast
        then show ?thesis
          using ok False j(2) c1 unfolding node_ok_def by auto
      qed
    qed
    have b: "\<forall>p\<ge>m. \<forall>c<n. (t = 2 * p + 1 \<or> t = 2 * p + 2) \<and> (c = 2 * t + 1 \<or> c = 2 * t + 2)
           \<longrightarrow> key A (?P' p) \<le> key A (?P' c)"
    proof (intro allI impI)
      fix p c assume p: "m \<le> p" and c: "c < n"
        and pc: "(t = 2 * p + 1 \<or> t = 2 * p + 2) \<and> (c = 2 * t + 1 \<or> c = 2 * t + 2)"
      have pi: "p = i" using pc t(1) unfolding l_def r_def by auto
      have ct: "c \<noteq> t" "c \<noteq> i" using pc ti by auto
      have "node_ok A n P t" using "1.prems"(1,3) ti by auto
      then have "key A (P t) \<le> key A (P c)" using pc c unfolding node_ok_def by auto
      then show "key A (?P' p) \<le> key A (?P' c)" using pi ct ti by simp
    qed
    have mt: "m \<le> t" using ti "1.prems"(3) by simp
    have "\<forall>j\<ge>m. node_ok A n (sift_down A n ?P' t) j"
      using "1.IH" [OF l_def r_def s_def t_def False a b mt] .
    then show ?thesis using unfold False by simp
  qed
qed

lemma make_heap_from_image:
  "i \<le> n \<Longrightarrow> make_heap_from A n P i ` {..<n} = P ` {..<n}"
  by (induction i arbitrary: P) (simp_all add: sift_down_image)

lemma make_heap_from_heap:
  assumes "\<forall>j\<ge>i. node_ok A n P j"
  shows "is_heap A n (make_heap_from A n P i)"
  using assms
proof (induction i arbitrary: P)
  case 0
  then show ?case by (simp add: is_heap_def)
next
  case (Suc i)
  have "\<forall>j\<ge>i. node_ok A n (sift_down A n P i) j"
    using Suc.prems by (intro sift_down_heap) auto
  then show ?case using Suc.IH by simp
qed

lemma make_heap_correct:
  "is_heap A n (make_heap A n P)" "make_heap A n P ` {..<n} = P ` {..<n}"
proof -
  have "\<forall>j\<ge>n div 2. node_ok A n P j"
    by (auto simp: node_ok_def)
  then show "is_heap A n (make_heap A n P)"
    unfolding make_heap_def by (rule make_heap_from_heap)
  show "make_heap A n P ` {..<n} = P ` {..<n}"
    unfolding make_heap_def by (rule make_heap_from_image) simp
qed

lemma heap_root_least:
  assumes "is_heap A n P" and "j < n"
  shows "key A (P 0) \<le> key A (P j)"
  using assms(2)
proof (induction j rule: less_induct)
  case (less j)
  show ?case
  proof (cases "j = 0")
    case True
    then show ?thesis by simp
  next
    case False
    define p where "p = (j - 1) div 2"
    have pj: "j = 2 * p + 1 \<or> j = 2 * p + 2" "p < j"
      using False unfolding p_def by presburger+
    have "node_ok A n P p" using assms(1) by (simp add: is_heap_def)
    then have "key A (P p) \<le> key A (P j)"
      using pj(1) less.prems unfolding node_ok_def by auto
    moreover have "key A (P 0) \<le> key A (P p)"
      using less.IH [OF pj(2)] pj(2) less.prems by simp
    ultimately show ?thesis by (rule order_trans [rotated])
  qed
qed

lemma push_back_correct:
  assumes "is_heap A n P" and "0 < n"
  shows "is_heap A n (push_back A n P x)"
    and "push_back A n P x ` {..<n} = insert x (P ` {0<..<n})"
proof -
  have "\<forall>j\<ge>0. j \<noteq> 0 \<longrightarrow> node_ok A n (P(0 := x)) j"
    using assms(1) by (auto simp: is_heap_def node_ok_def)
  then have "\<forall>j\<ge>0. node_ok A n (sift_down A n (P(0 := x)) 0) j"
    by (intro sift_down_heap) auto
  then show "is_heap A n (push_back A n P x)"
    by (simp add: is_heap_def push_back_def)
  have "push_back A n P x ` {..<n} = (P(0 := x)) ` {..<n}"
    unfolding push_back_def using assms(2) by (rule sift_down_image)
  also have "\<dots> = insert x (P ` {0<..<n})"
    using assms(2) by (auto simp: image_iff) 
  finally show "push_back A n P x ` {..<n} = insert x (P ` {0<..<n})" .
qed

lemma key_le_iff: "key A a \<le> key B b \<longleftrightarrow> A a < B b \<or> A a = B b \<and> a \<le> b"
  by (auto simp: key_def less_eq_prod_def)

lemma key_less_iff: "key A a < key B b \<longleftrightarrow> A a < B b \<or> A a = B b \<and> a < b"
  by (auto simp: key_def less_prod_def)

lemma key_eq_iff: "key A a = key A b \<longleftrightarrow> a = b"
  by (auto simp: key_def)

lemma is_heap_cong:
  assumes "\<forall>i<n. A (P i) = B (P i)"
  shows "is_heap A n P \<longleftrightarrow> is_heap B n P"
proof -
  have "node_ok A n P i \<longleftrightarrow> node_ok B n P i" for i
    using assms by (auto simp: node_ok_def key_def)
  then show ?thesis by (simp add: is_heap_def)
qed

lemma find_index:
  assumes "inj_on P {..<n}" and "i < n"
  shows "find (\<lambda>j. P j = P i) [0 ..< n] = Some i"
proof -
  have "\<exists>j. find (\<lambda>j. P j = P i) [0 ..< n] = Some j"
    using assms(2) by (cases "find (\<lambda>j. P j = P i) [0 ..< n]") (auto simp: find_None_iff)
  then obtain j where j: "find (\<lambda>j. P j = P i) [0 ..< n] = Some j" by blast
  then have "j < n" "P j = P i"
    by (auto simp: find_Some_iff)
  then have "j = i" using assms by (auto dest: inj_onD)
  with j show ?thesis by simp
qed

lemma promote_correct:
  assumes heap: "is_heap A n P"
    and inj: "inj_on P {..<n}"
    and i: "i < n"
    and up: "A (P i) \<le> v"
  shows "is_heap (A(P i := v)) n (promote (A(P i := v)) n P (P i))"
    and "promote (A(P i := v)) n P (P i) ` {..<n} = P ` {..<n}"
proof -
  let ?B = "A(P i := v)"
  have p: "promote ?B n P (P i) = sift_down ?B n P i"
    by (simp add: promote_def find_index [OF inj i])
  have same: "key ?B (P j) = key A (P j)" if "j < n" "j \<noteq> i" for j
    using that inj i by (auto simp: key_def dest: inj_onD)
  have grow: "key A (P j) \<le> key ?B (P j)" for j
    using up by (auto simp: key_le_iff)
  have ok: "node_ok A n P j" for j using heap by (simp add: is_heap_def)
  have a: "\<forall>j\<ge>0. j \<noteq> i \<longrightarrow> node_ok ?B n P j"
  proof (intro allI impI)
    fix j assume j: "j \<noteq> i"
    have "key ?B (P j) \<le> key ?B (P c)" if c: "c < n" "c = 2 * j + 1 \<or> c = 2 * j + 2" for c
    proof -
      have "j < n" using c by auto
      then have "key ?B (P j) = key A (P j)" using same j by simp
      also have "\<dots> \<le> key A (P c)" using ok [of j] c by (auto simp: node_ok_def)
      also have "\<dots> \<le> key ?B (P c)" by (rule grow)
      finally show ?thesis .
    qed
    then show "node_ok ?B n P j" unfolding node_ok_def by blast
  qed
  have b: "\<forall>p\<ge>0. \<forall>c<n. (i = 2 * p + 1 \<or> i = 2 * p + 2) \<and> (c = 2 * i + 1 \<or> c = 2 * i + 2)
           \<longrightarrow> key ?B (P p) \<le> key ?B (P c)"
  proof (intro allI impI)
    fix p c assume c: "c < n"
      and pc: "(i = 2 * p + 1 \<or> i = 2 * p + 2) \<and> (c = 2 * i + 1 \<or> c = 2 * i + 2)"
    have "p < n" "p \<noteq> i" "c \<noteq> i" using pc i by auto
    then have "key ?B (P p) = key A (P p)" "key ?B (P c) = key A (P c)"
      using same c by simp_all
    moreover have "key A (P p) \<le> key A (P i)" using ok [of p] pc i by (auto simp: node_ok_def)
    moreover have "key A (P i) \<le> key A (P c)" using ok [of i] pc c by (auto simp: node_ok_def)
    ultimately show "key ?B (P p) \<le> key ?B (P c)" by simp
  qed
  have "\<forall>j\<ge>0. node_ok ?B n (sift_down ?B n P i) j"
    using a b by (rule sift_down_heap) simp
  then show "is_heap ?B n (promote ?B n P (P i))"
    by (simp add: p is_heap_def)
  show "promote ?B n P (P i) ` {..<n} = P ` {..<n}"
    unfolding p using i by (rule sift_down_image)
qed

lemma same_image_inj_on:
  fixes P Q :: "nat \<Rightarrow> nat"
  assumes "Q ` {..<n} = P ` {..<n}" and "inj_on P {..<n}"
  shows "inj_on Q {..<n}"
proof -
  have "card (Q ` {..<n}) = card {..<n}"
    using assms by (simp add: card_image)
  then show ?thesis by (rule eq_card_imp_inj_on [rotated]) simp
qed

subsection \<open>The comparator inside the engine\<close>

lemma cmp_sign:
  assumes "a < accumulators_extent e" and "b < accumulators_extent e"
  shows "0 \<le> cmp e a b \<longleftrightarrow> key (accumulators e) b \<le> key (accumulators e) a"
    and "0 < cmp e a b \<longleftrightarrow> key (accumulators e) b < key (accumulators e) a"
proof -
  have s: "sgn (cmp e a b) = add_rsv_compare (accumulators e) a b"
  proof (cases "variant e")
    case Static_arrays
    then have "a < 2 ^ 31" "b < 2 ^ 31"
      using assms by (simp_all add: accumulators_extent_def)
    then show ?thesis
      using Static_arrays by (simp add: cmp_def add_rsv_compare_static_sgn)
  next
    case Allocated_arrays
    then show ?thesis by (auto simp: cmp_def add_rsv_compare_def)
  qed
  have "0 \<le> cmp e a b \<longleftrightarrow> 0 \<le> sgn (cmp e a b)" "0 < cmp e a b \<longleftrightarrow> 0 < sgn (cmp e a b)"
    by (simp_all add: sgn_if)
  then show "0 \<le> cmp e a b \<longleftrightarrow> key (accumulators e) b \<le> key (accumulators e) a"
    and "0 < cmp e a b \<longleftrightarrow> key (accumulators e) b < key (accumulators e) a"
    unfolding s add_rsv_compare_key by auto
qed

subsection \<open>The invariant is kept by add_rsv\<close>

lemma total_Nil: "total_score [] d = 0"
  by (simp add: total_score_def)

lemma total_snoc: "total_score (ps @ [(d, s)]) x = total_score ps x + (if x = d then unat s else 0)"
  by (simp add: total_score_def)

lemma total_append: "total_score (ps @ qs) x = total_score ps x + total_score qs x"
  by (simp add: total_score_def)

lemma well_formed_fields:
  assumes "well_formed e documents"
    and "variant e' = variant e" and "accumulators_shift e' = accumulators_shift e"
    and "accumulators_width e' = accumulators_width e"
    and "accumulators_height e' = accumulators_height e"
    and "top_k e' = top_k e" and "primary_keys e' = primary_keys e"
  shows "well_formed e' documents" and "cells e' = cells e"
    and "accumulators_extent e' = accumulators_extent e"
    and "accumulator_pointers_extent e' = accumulator_pointers_extent e"
    and "heap_size e' = heap_size e"
  using assms
  by (cases "variant e"; simp add: well_formed_def cells_def clean_flags_extent_def
      accumulators_extent_def accumulator_pointers_extent_def heap_size_def)+

lemma strip_in_bounds:
  assumes "well_formed e documents" and "d < cells e"
  shows "drop_bit (accumulators_shift e) d < accumulators_height e"
    and "accumulators_width e * drop_bit (accumulators_shift e) d + accumulators_width e
           \<le> cells e"
proof -
  let ?W = "accumulators_width e" and ?H = "accumulators_height e"
  have W: "?W = 2 ^ accumulators_shift e" using assms(1) by (simp add: well_formed_def)
  have "d < ?H * ?W" using assms(2) by (simp add: cells_def mult.commute)
  then have "d div ?W < ?H" by (simp add: less_mult_imp_div_less)
  then show s: "drop_bit (accumulators_shift e) d < ?H" by (simp add: drop_bit_eq_div W)
  then have "drop_bit (accumulators_shift e) d + 1 \<le> ?H" by simp
  then have "?W * (drop_bit (accumulators_shift e) d + 1) \<le> ?W * ?H"
    by (rule mult_le_mono2)
  then show "?W * drop_bit (accumulators_shift e) d + ?W \<le> cells e"
    by (simp add: cells_def)
qed

lemma tracked_cell:
  assumes "ranking_inv e documents ps" and "p \<in> tracked e"
  shows "p < documents" and "p < cells e" and "p < accumulators_extent e"
    and "0 < total_score ps p"
    and "clean_flags e (drop_bit (accumulators_shift e) p) \<noteq> 0"
    and "val e p = accumulators e p"
    and "unat (accumulators e p) = total_score ps p"
proof -
  have p: "p \<in> positive documents ps" using assms by (auto simp: ranking_inv_def)
  then show "p < documents" "0 < total_score ps p" by (simp_all add: positive_def)
  have wf: "well_formed e documents" using assms(1) by (simp add: ranking_inv_def)
  then show c: "p < cells e" "p < accumulators_extent e"
    using \<open>p < documents\<close> by (simp_all add: well_formed_def)
  then have u: "unat (val e p) = total_score ps p" using assms(1) by (simp add: ranking_inv_def)
  then have "val e p \<noteq> 0" using \<open>0 < total_score ps p\<close> by auto
  then show "clean_flags e (drop_bit (accumulators_shift e) p) \<noteq> 0"
    by (auto simp: val_def split: if_splits)
  then show "val e p = accumulators e p" by (simp add: val_def)
  then show "unat (accumulators e p) = total_score ps p" using u by simp
qed

lemma touch_inv:
  assumes inv: "ranking_inv e documents ps" and d: "d < documents"
  obtains e1 where "touch e d = Inr e1" and "ranking_inv e1 documents ps"
    and "clean_flags e1 (drop_bit (accumulators_shift e1) d) \<noteq> 0"
proof -
  let ?S = "accumulators_shift e" and ?W = "accumulators_width e"
  let ?s = "drop_bit ?S d"
  have wf: "well_formed e documents" using inv by (simp add: ranking_inv_def)
  then have W: "?W = 2 ^ ?S" and dc: "d < cells e"
    and fe: "accumulators_height e \<le> clean_flags_extent e"
    and ae: "cells e \<le> accumulators_extent e"
    using d by (simp_all add: well_formed_def)
  note sb = strip_in_bounds [OF wf dc]
  have "\<exists>e1. touch e d = Inr e1"
    using sb fe ae by (auto simp: touch_def Let_def)
  then obtain e1 where t: "touch e d = Inr e1" by blast
  note f = touch_Inr [OF t]
  note wf1 = well_formed_fields [OF wf f(2,4,5,6,8,9)]
  have dirty: "clean_flags e1 (drop_bit (accumulators_shift e1) d) \<noteq> 0"
    using f(4,10) by simp
  have v: "val e1 x = val e x" for x
  proof (cases "clean_flags e ?s = 0")
    case True
    show ?thesis
    proof (cases "drop_bit ?S x = ?s")
      case True
      with \<open>clean_flags e ?s = 0\<close> show ?thesis
        using f(10,11) W strip_range [of ?S x] by (simp add: val_def f(4))
    next
      case False
      then have "\<not> (?W * ?s \<le> x \<and> x < ?W * ?s + ?W)"
        unfolding W strip_range_iff by simp
      then show ?thesis using False f(10,11) by (auto simp: val_def f(4))
    qed
  next
    case False
    then show ?thesis using f(10,11) by (auto simp: val_def f(4))
  qed
  have a: "accumulators e1 x = accumulators e x"
    if "clean_flags e (drop_bit ?S x) \<noteq> 0" for x
  proof (cases "clean_flags e ?s = 0")
    case True
    then have "drop_bit ?S x \<noteq> ?s" using that by auto
    then have "\<not> (?W * ?s \<le> x \<and> x < ?W * ?s + ?W)"
      unfolding W strip_range_iff by simp
    then show ?thesis using f(11) True by auto
  next
    case False
    then show ?thesis using f(11) by simp
  qed
  have tr: "tracked e1 = tracked e" by (simp add: tracked_def f)
  have at: "accumulators e1 p = accumulators e p" if "p \<in> tracked e" for p
    using a tracked_cell(5) [OF inv that] by simp
  have heap: "is_heap (accumulators e1) (top_k e1) (accumulator_pointers e1)
      \<and> (\<forall>x < cells e1. x \<notin> tracked e1 \<longrightarrow>
             key (val e1) x < key (accumulators e1) (accumulator_pointers e1 0))"
    if full: "results_list_length e1 = top_k e1"
  proof -
    have full': "results_list_length e = top_k e" using full f by simp
    then have h: "is_heap (accumulators e) (top_k e) (accumulator_pointers e)"
      and o: "\<forall>x < cells e. x \<notin> tracked e \<longrightarrow>
             key (val e) x < key (accumulators e) (accumulator_pointers e 0)"
      using inv by (simp_all add: ranking_inv_def)
    have "\<forall>i<top_k e. accumulators e1 (accumulator_pointers e i)
                         = accumulators e (accumulator_pointers e i)"
      using at full' by (auto simp: tracked_def)
    then have "is_heap (accumulators e1) (top_k e) (accumulator_pointers e)"
      using h is_heap_cong by blast
    moreover have "0 < top_k e" using wf by (simp add: well_formed_def)
    then have "accumulator_pointers e 0 \<in> tracked e" using full' by (simp add: tracked_def)
    then have "key (accumulators e1) (accumulator_pointers e 0)
                 = key (accumulators e) (accumulator_pointers e 0)"
      using at by (simp add: key_def)
    moreover have "key (val e1) x = key (val e) x" for x by (simp add: key_def v)
    ultimately show ?thesis using o by (simp add: f tr wf1(2))
  qed
  have "ranking_inv e1 documents ps"
    unfolding ranking_inv_def
    using inv wf1(1) heap by (simp add: ranking_inv_def v tr f(3,7,8) wf1(2))
  then show ?thesis using that t dirty by blast
qed

lemma total_outside:
  assumes "\<forall>p \<in> set ps. fst p < documents" and "documents \<le> x"
  shows "total_score ps x = 0"
proof -
  have "filter (\<lambda>p. fst p = x) ps = []"
    using assms by (auto simp: filter_empty_conv)
  then show ?thesis by (simp add: total_score_def)
qed

lemma positive_snoc:
  assumes "d < documents" and "s \<noteq> 0"
  shows "positive documents (ps @ [(d, s)]) = insert d (positive documents ps)"
  using assms by (auto simp: positive_def total_snoc unat_gt_0)

lemma cell_update:
  assumes inv: "ranking_inv e documents ps" and d: "d < documents"
    and dirty: "clean_flags e (drop_bit (accumulators_shift e) d) \<noteq> 0"
    and nov: "total_score ps d + unat s < 65536"
  shows "unat (accumulators e d) = total_score ps d"
    and "unat (accumulators e d + s) = total_score ps d + unat s"
    and "accumulators e d \<le> accumulators e d + s"
proof -
  have "d < cells e" using inv d by (simp add: ranking_inv_def well_formed_def)
  then have "unat (val e d) = total_score ps d" using inv by (simp add: ranking_inv_def)
  then show u: "unat (accumulators e d) = total_score ps d" using dirty by (simp add: val_def)
  have "unat (accumulators e d) + unat s < 2 ^ LENGTH(16)" using nov u by simp
  then have "unat (accumulators e d + s) = unat (accumulators e d) + unat s"
    by (simp only: unat_add_lem)
  then show "unat (accumulators e d + s) = total_score ps d + unat s" using u by simp
  then show "accumulators e d \<le> accumulators e d + s" using u by (simp add: word_le_nat_alt)
qed

text \<open>
  The frame of the proof: a state that differs from a touched state \<open>e\<close> in the cell of
  \<open>d\<close>, the pointer array and the length of the list.
\<close>

lemma ranking_inv_update:
  assumes inv: "ranking_inv e documents ps" and d: "d < documents"
    and dirty: "clean_flags e (drop_bit (accumulators_shift e) d) \<noteq> 0"
    and nov: "total_score ps d + unat s < 65536" and s: "s \<noteq> 0"
    and fields: "variant e' = variant e" "accumulators_shift e' = accumulators_shift e"
      "accumulators_width e' = accumulators_width e"
      "accumulators_height e' = accumulators_height e"
      "top_k e' = top_k e" "primary_keys e' = primary_keys e"
      "clean_flags e' = clean_flags e"
      "accumulators e' = (accumulators e)(d := accumulators e d + s)"
    and len: "results_list_length e' \<le> top_k e"
    and inj: "inj_on (accumulator_pointers e') {..<results_list_length e'}"
    and sub: "tracked e' \<subseteq> insert d (positive documents ps)"
    and sup: "results_list_length e' < top_k e \<Longrightarrow> insert d (positive documents ps) \<subseteq> tracked e'"
    and heap: "results_list_length e' = top_k e \<Longrightarrow>
        is_heap (accumulators e') (top_k e) (accumulator_pointers e') \<and>
        (\<forall>x < cells e. x \<notin> tracked e' \<longrightarrow>
             key (\<lambda>x. if x = d then accumulators e d + s else val e x) x
               < key (accumulators e') (accumulator_pointers e' 0))"
  shows "ranking_inv e' documents (ps @ [(d, s)])"
proof -
  have wf: "well_formed e documents" using inv by (simp add: ranking_inv_def)
  note wf' = well_formed_fields [OF wf fields(1-6)]
  note cu = cell_update [OF inv d dirty nov]
  have v: "val e' x = (if x = d then accumulators e d + s else val e x)" for x
    using dirty by (simp add: val_def fields)
  have tot: "\<forall>x < cells e'. unat (val e' x) = total_score (ps @ [(d, s)]) x"
    using inv cu(2) by (simp add: v total_snoc wf'(2) ranking_inv_def)
  have valid: "\<forall>p \<in> set (ps @ [(d, s)]). fst p < documents"
    using inv d by (simp add: ranking_inv_def)
  have "(\<lambda>x. if x = d then accumulators e d + s else val e x) = val e'"
    by (rule ext) (simp add: v)
  then show ?thesis
    unfolding ranking_inv_def positive_snoc [OF d s]
    using wf'(1) valid tot len inj sub sup heap by (simp add: fields(5) wf'(2))
qed

lemma card_image_inj_on:
  fixes Q :: "nat \<Rightarrow> nat"
  assumes "card (Q ` {..<n}) = n"
  shows "inj_on Q {..<n}"
  by (rule eq_card_imp_inj_on) (simp_all add: assms)

text \<open>The list is not full and the cell was zero: the pointer is appended.\<close>

lemma step_append:
  assumes inv: "ranking_inv e documents ps" and d: "d < documents"
    and dirty: "clean_flags e (drop_bit (accumulators_shift e) d) \<noteq> 0"
    and nov: "total_score ps d + unat s < 65536" and s: "s \<noteq> 0"
    and nf: "results_list_length e < top_k e" and old: "accumulators e d = 0"
    and P': "P' = (let P1 = (accumulator_pointers e)(results_list_length e := d)
                  in if results_list_length e + 1 = top_k e
                     then make_heap ((accumulators e)(d := accumulators e d + s)) (top_k e) P1
                     else P1)"
  shows "ranking_inv (e\<lparr>accumulators := (accumulators e)(d := accumulators e d + s),
                         accumulator_pointers := P',
                         results_list_length := results_list_length e + 1\<rparr>)
           documents (ps @ [(d, s)])"
proof -
  let ?A = "accumulators e" and ?P = "accumulator_pointers e"
  let ?L = "results_list_length e" and ?k = "top_k e"
  let ?A' = "?A(d := ?A d + s)"
  let ?P1 = "?P(?L := d)"
  let ?e' = "e\<lparr>accumulators := ?A', accumulator_pointers := P', results_list_length := ?L + 1\<rparr>"
  note cu = cell_update [OF inv d dirty nov]
  have wf: "well_formed e documents" using inv by (simp add: ranking_inv_def)
  have sub: "tracked e \<subseteq> positive documents ps"
    and sup: "positive documents ps \<subseteq> tracked e"
    and inj: "inj_on ?P {..<?L}"
    and valid: "\<forall>p \<in> set ps. fst p < documents"
    and tot: "\<forall>x < cells e. unat (val e x) = total_score ps x"
    using inv nf by (simp_all add: ranking_inv_def)
  have "total_score ps d = 0" using cu(1) old by simp
  then have dn: "d \<notin> tracked e" using sub by (auto simp: positive_def)
  have im1: "?P1 ` {..<?L + 1} = insert d (tracked e)"
    by (auto simp: tracked_def image_iff less_Suc_eq)
  have inj1: "inj_on ?P1 {..<?L + 1}"
    using inj dn by (auto simp: inj_on_def tracked_def less_Suc_eq)
  have im: "P' ` {..<?L + 1} = insert d (tracked e)"
    using im1 make_heap_correct(2) [of ?A' ?k ?P1] by (auto simp: P' Let_def)
  have tr: "tracked ?e' = insert d (tracked e)" using im by (simp add: tracked_def)
  have inj': "inj_on P' {..<?L + 1}"
    using same_image_inj_on [OF _ inj1, of P'] im im1 by simp
  show ?thesis
  proof (rule ranking_inv_update [OF inv d dirty nov s])
    show "results_list_length ?e' \<le> top_k e" using nf by simp
    show "inj_on (accumulator_pointers ?e') {..<results_list_length ?e'}"
      using inj' by simp
    show "tracked ?e' \<subseteq> insert d (positive documents ps)" using tr sub by auto
    show "insert d (positive documents ps) \<subseteq> tracked ?e'" using tr sup by auto
    show "is_heap (accumulators ?e') (top_k e) (accumulator_pointers ?e') \<and>
        (\<forall>x < cells e. x \<notin> tracked ?e' \<longrightarrow>
             key (\<lambda>x. if x = d then accumulators e d + s else val e x) x
               < key (accumulators ?e') (accumulator_pointers ?e' 0))"
      if full: "results_list_length ?e' = top_k e"
    proof -
      have Pm: "P' = make_heap ?A' ?k ?P1" using full by (simp add: P' Let_def)
      have h: "is_heap ?A' ?k P'" unfolding Pm by (rule make_heap_correct(1))
      have "0 < ?k" using wf by (simp add: well_formed_def)
      then have "P' 0 \<in> insert d (tracked e)" using im full by auto
      then have root: "?A' (P' 0) \<noteq> 0"
      proof
        assume "P' 0 = d"
        then show ?thesis using old s by simp
      next
        assume t: "P' 0 \<in> tracked e"
        then have "P' 0 \<noteq> d" using dn by auto
        moreover have "?A (P' 0) \<noteq> 0"
          using tracked_cell(4,7) [OF inv t] by (auto simp: unat_gt_0 [symmetric])
        ultimately show ?thesis by simp
      qed
      have "key (\<lambda>x. if x = d then ?A d + s else val e x) x < key ?A' (P' 0)"
        if x: "x < cells e" "x \<notin> tracked ?e'" for x
      proof -
        have xd: "x \<noteq> d" "x \<notin> positive documents ps" using x tr sup by auto
        have "total_score ps x = 0"
        proof (cases "x < documents")
          case True
          then show ?thesis using xd(2) by (simp add: positive_def)
        next
          case False
          then show ?thesis using total_outside [OF valid] by simp
        qed
        then have "val e x = 0" using tot x(1) by (auto simp: unat_0_iff [symmetric])
        then show ?thesis using xd(1) root by (simp add: key_less_iff word_neq_0_conv)
      qed
      then show ?thesis using h by simp
    qed
  qed simp_all
qed

text \<open>The list is not full and the cell was not zero: only the cell changes.\<close>

lemma step_accumulate:
  assumes inv: "ranking_inv e documents ps" and d: "d < documents"
    and dirty: "clean_flags e (drop_bit (accumulators_shift e) d) \<noteq> 0"
    and nov: "total_score ps d + unat s < 65536" and s: "s \<noteq> 0"
    and nf: "results_list_length e < top_k e" and old: "accumulators e d \<noteq> 0"
  shows "ranking_inv (e\<lparr>accumulators := (accumulators e)(d := accumulators e d + s)\<rparr>)
           documents (ps @ [(d, s)])"
proof -
  let ?e' = "e\<lparr>accumulators := (accumulators e)(d := accumulators e d + s)\<rparr>"
  note cu = cell_update [OF inv d dirty nov]
  have sub: "tracked e \<subseteq> positive documents ps"
    and sup: "positive documents ps \<subseteq> tracked e"
    and inj: "inj_on (accumulator_pointers e) {..<results_list_length e}"
    using inv nf by (simp_all add: ranking_inv_def)
  have "0 < total_score ps d" using cu(1) old by (simp add: unat_gt_0 [symmetric])
  then have dt: "d \<in> tracked e" using sup d by (auto simp: positive_def)
  have tr: "tracked ?e' = tracked e" by (simp add: tracked_def)
  show ?thesis
  proof (rule ranking_inv_update [OF inv d dirty nov s])
    show "results_list_length ?e' \<le> top_k e" using nf by simp
    show "inj_on (accumulator_pointers ?e') {..<results_list_length ?e'}" using inj by simp
    show "tracked ?e' \<subseteq> insert d (positive documents ps)" using tr sub by auto
    show "insert d (positive documents ps) \<subseteq> tracked ?e'" using tr sup dt by auto
    show "is_heap (accumulators ?e') (top_k e) (accumulator_pointers ?e') \<and>
        (\<forall>x < cells e. x \<notin> tracked ?e' \<longrightarrow>
             key (\<lambda>x. if x = d then accumulators e d + s else val e x) x
               < key (accumulators ?e') (accumulator_pointers ?e' 0))"
      if "results_list_length ?e' = top_k e"
      using that nf by simp
  qed simp_all
qed

lemma full_facts:
  assumes inv: "ranking_inv e documents ps"
    and full: "results_list_length e = top_k e"
  shows "is_heap (accumulators e) (top_k e) (accumulator_pointers e)"
    and "\<And>x. x < cells e \<Longrightarrow> x \<notin> tracked e \<Longrightarrow>
           key (val e) x < key (accumulators e) (accumulator_pointers e 0)"
    and "inj_on (accumulator_pointers e) {..<top_k e}"
    and "tracked e = accumulator_pointers e ` {..<top_k e}"
    and "0 < top_k e"
    and "accumulator_pointers e 0 \<in> tracked e"
    and "\<And>p. p \<in> tracked e \<Longrightarrow>
           key (accumulators e) (accumulator_pointers e 0) \<le> key (accumulators e) p"
proof -
  show h: "is_heap (accumulators e) (top_k e) (accumulator_pointers e)"
    and "\<And>x. x < cells e \<Longrightarrow> x \<notin> tracked e \<Longrightarrow>
           key (val e) x < key (accumulators e) (accumulator_pointers e 0)"
    and "inj_on (accumulator_pointers e) {..<top_k e}"
    using inv full by (simp_all add: ranking_inv_def)
  show t: "tracked e = accumulator_pointers e ` {..<top_k e}"
    using full by (simp add: tracked_def)
  show k: "0 < top_k e" using inv by (simp add: ranking_inv_def well_formed_def)
  then show "accumulator_pointers e 0 \<in> tracked e" unfolding t by blast
  show "key (accumulators e) (accumulator_pointers e 0) \<le> key (accumulators e) p"
    if "p \<in> tracked e" for p
    using that heap_root_least [OF h] unfolding t by auto
qed

text \<open>The list is full and the cell is not below the root: it is in the heap.\<close>

lemma step_promote:
  assumes inv: "ranking_inv e documents ps" and d: "d < documents"
    and dirty: "clean_flags e (drop_bit (accumulators_shift e) d) \<noteq> 0"
    and nov: "total_score ps d + unat s < 65536" and s: "s \<noteq> 0"
    and full: "results_list_length e = top_k e"
    and ge: "key (accumulators e) (accumulator_pointers e 0) \<le> key (accumulators e) d"
  shows "d \<in> tracked e"
    and "ranking_inv (e\<lparr>accumulators := (accumulators e)(d := accumulators e d + s),
                         accumulator_pointers :=
                           promote ((accumulators e)(d := accumulators e d + s)) (top_k e)
                             (accumulator_pointers e) d\<rparr>)
           documents (ps @ [(d, s)])"
proof -
  let ?A = "accumulators e" and ?P = "accumulator_pointers e" and ?k = "top_k e"
  let ?A' = "?A(d := ?A d + s)"
  let ?P' = "promote ?A' ?k ?P d"
  let ?e' = "e\<lparr>accumulators := ?A', accumulator_pointers := ?P'\<rparr>"
  note cu = cell_update [OF inv d dirty nov]
  note ff = full_facts [OF inv full]
  have sub: "tracked e \<subseteq> positive documents ps" using inv by (simp add: ranking_inv_def)
  have dc: "d < cells e" using inv d by (simp add: ranking_inv_def well_formed_def)
  have vd: "val e d = ?A d" using dirty by (simp add: val_def)
  show dt: "d \<in> tracked e"
  proof (rule ccontr)
    assume "d \<notin> tracked e"
    then have "key (val e) d < key ?A (?P 0)" using ff(2) dc by blast
    moreover have "key (val e) d = key ?A d" using vd by (simp add: key_def)
    ultimately show False using ge by (simp add: leD)
  qed
  then obtain i where i: "i < ?k" "?P i = d" unfolding ff(4) by auto
  have pc: "is_heap ?A' ?k ?P'" "?P' ` {..<?k} = ?P ` {..<?k}"
    using promote_correct [OF ff(1,3) i(1), of "?A d + s"] cu(3) i(2) by simp_all
  have tr: "tracked ?e' = tracked e" using pc(2) full by (simp add: tracked_def)
  have grow: "key ?A p \<le> key ?A' p" for p
    using cu(3) by (simp add: key_def less_eq_prod_def)
  show "ranking_inv ?e' documents (ps @ [(d, s)])"
  proof (rule ranking_inv_update [OF inv d dirty nov s])
    show "results_list_length ?e' \<le> top_k e" using full by simp
    show "inj_on (accumulator_pointers ?e') {..<results_list_length ?e'}"
      using same_image_inj_on [OF pc(2) ff(3)] full by simp
    show "tracked ?e' \<subseteq> insert d (positive documents ps)" using tr sub by auto
    show "insert d (positive documents ps) \<subseteq> tracked ?e'"
      if "results_list_length ?e' < top_k e" using that full by simp
    show "is_heap (accumulators ?e') (top_k e) (accumulator_pointers ?e') \<and>
        (\<forall>x < cells e. x \<notin> tracked ?e' \<longrightarrow>
             key (\<lambda>x. if x = d then accumulators e d + s else val e x) x
               < key (accumulators ?e') (accumulator_pointers ?e' 0))"
    proof -
      have "?P' 0 \<in> tracked e" using pc(2) ff(5) unfolding ff(4) by blast
      then have "key ?A (?P 0) \<le> key ?A (?P' 0)" by (rule ff(7))
      also have "\<dots> \<le> key ?A' (?P' 0)" by (rule grow)
      finally have root: "key ?A (?P 0) \<le> key ?A' (?P' 0)" .
      have "key (\<lambda>x. if x = d then ?A d + s else val e x) x < key ?A' (?P' 0)"
        if x: "x < cells e" "x \<notin> tracked ?e'" for x
      proof -
        have "x \<noteq> d" "x \<notin> tracked e" using x dt tr by auto
        then have "key (\<lambda>x. if x = d then ?A d + s else val e x) x = key (val e) x"
          by (simp add: key_def)
        also have "\<dots> < key ?A (?P 0)" using ff(2) x(1) \<open>x \<notin> tracked e\<close> by blast
        finally show ?thesis using root by (rule less_le_trans)
      qed
      then show ?thesis using pc(1) by simp
    qed
  qed simp_all
qed

lemma below_root_outside:
  assumes inv: "ranking_inv e documents ps"
    and full: "results_list_length e = top_k e"
    and lt: "key (accumulators e) d < key (accumulators e) (accumulator_pointers e 0)"
  shows "d \<notin> tracked e"
  using full_facts(7) [OF inv full, of d] lt by auto

text \<open>The list is full, the cell is outside the heap and now above the root.\<close>

lemma step_push_back:
  assumes inv: "ranking_inv e documents ps" and d: "d < documents"
    and dirty: "clean_flags e (drop_bit (accumulators_shift e) d) \<noteq> 0"
    and nov: "total_score ps d + unat s < 65536" and s: "s \<noteq> 0"
    and full: "results_list_length e = top_k e"
    and lt: "key (accumulators e) d < key (accumulators e) (accumulator_pointers e 0)"
    and gt: "key ((accumulators e)(d := accumulators e d + s)) (accumulator_pointers e 0)
               < key ((accumulators e)(d := accumulators e d + s)) d"
  shows "ranking_inv (e\<lparr>accumulators := (accumulators e)(d := accumulators e d + s),
                         accumulator_pointers :=
                           push_back ((accumulators e)(d := accumulators e d + s)) (top_k e)
                             (accumulator_pointers e) d\<rparr>)
           documents (ps @ [(d, s)])"
proof -
  let ?A = "accumulators e" and ?P = "accumulator_pointers e" and ?k = "top_k e"
  let ?A' = "?A(d := ?A d + s)"
  let ?P' = "push_back ?A' ?k ?P d"
  let ?e' = "e\<lparr>accumulators := ?A', accumulator_pointers := ?P'\<rparr>"
  note ff = full_facts [OF inv full]
  have sub: "tracked e \<subseteq> positive documents ps" using inv by (simp add: ranking_inv_def)
  have dn: "d \<notin> tracked e" using below_root_outside [OF inv full lt] .
  have same: "?A' p = ?A p" if "p \<in> tracked e" for p using that dn by auto
  have "\<forall>i<?k. ?A (?P i) = ?A' (?P i)" using same unfolding ff(4) by auto
  then have h: "is_heap ?A' ?k ?P" using ff(1) is_heap_cong by blast
  note pb = push_back_correct [OF h ff(5), of d]
  have rest: "?P ` {0<..<?k} = tracked e - {?P 0}"
  proof (rule set_eqI)
    fix p
    show "p \<in> ?P ` {0<..<?k} \<longleftrightarrow> p \<in> tracked e - {?P 0}"
    proof
      assume "p \<in> ?P ` {0<..<?k}"
      then obtain j where j: "0 < j" "j < ?k" "p = ?P j" by auto
      then have "?P j \<noteq> ?P 0" using inj_onD [OF ff(3), of j 0] ff(5) by auto
      then show "p \<in> tracked e - {?P 0}" using j unfolding ff(4) by auto
    next
      assume "p \<in> tracked e - {?P 0}"
      then obtain j where j: "j < ?k" "p = ?P j" "?P j \<noteq> ?P 0" unfolding ff(4) by auto
      then have "0 < j" by (cases "j = 0") auto
      then show "p \<in> ?P ` {0<..<?k}" using j by auto
    qed
  qed
  have tr: "tracked ?e' = insert d (tracked e - {?P 0})"
    using pb(2) rest full by (simp add: tracked_def)
  have fin: "finite (tracked e)" by (simp add: tracked_def)
  have "card (tracked e) = ?k" unfolding ff(4) using ff(3) by (simp add: card_image)
  then have "card (insert d (tracked e - {?P 0})) = ?k"
    using dn ff(5,6) fin by simp
  then have inj': "inj_on ?P' {..<?k}"
    using pb(2) rest by (intro card_image_inj_on) simp
  have root0: "key ?A' (?P 0) = key ?A (?P 0)" using same [OF ff(6)] by (simp add: key_def)
  have "?P' 0 \<in> insert d (tracked e - {?P 0})" using pb(2) rest ff(5) by blast
  then have root: "key ?A (?P 0) < key ?A' (?P' 0)"
  proof
    assume "?P' 0 = d"
    then show ?thesis using gt root0 by simp
  next
    assume p: "?P' 0 \<in> tracked e - {?P 0}"
    then have "key ?A (?P 0) \<le> key ?A (?P' 0)" using ff(7) by blast
    moreover have "key ?A (?P 0) \<noteq> key ?A (?P' 0)" using p by (simp add: key_eq_iff)
    moreover have "key ?A' (?P' 0) = key ?A (?P' 0)" using same p by (simp add: key_def)
    ultimately show ?thesis by simp
  qed
  show ?thesis
  proof (rule ranking_inv_update [OF inv d dirty nov s])
    show "results_list_length ?e' \<le> top_k e" using full by simp
    show "inj_on (accumulator_pointers ?e') {..<results_list_length ?e'}"
      using inj' full by simp
    show "tracked ?e' \<subseteq> insert d (positive documents ps)" using tr sub by auto
    show "insert d (positive documents ps) \<subseteq> tracked ?e'"
      if "results_list_length ?e' < top_k e" using that full by simp
    show "is_heap (accumulators ?e') (top_k e) (accumulator_pointers ?e') \<and>
        (\<forall>x < cells e. x \<notin> tracked ?e' \<longrightarrow>
             key (\<lambda>x. if x = d then accumulators e d + s else val e x) x
               < key (accumulators ?e') (accumulator_pointers ?e' 0))"
    proof -
      have "key (\<lambda>x. if x = d then ?A d + s else val e x) x < key ?A' (?P' 0)"
        if x: "x < cells e" "x \<notin> tracked ?e'" for x
      proof -
        have xd: "x \<noteq> d" and x0: "x = ?P 0 \<or> x \<notin> tracked e" using x tr by auto
        have "key (val e) x \<le> key ?A (?P 0)"
          using x0
        proof
          assume "x = ?P 0"
          then show ?thesis using tracked_cell(6) [OF inv ff(6)] by (simp add: key_def)
        next
          assume "x \<notin> tracked e"
          then show ?thesis using ff(2) x(1) by (simp add: less_imp_le)
        qed
        moreover have "key (\<lambda>x. if x = d then ?A d + s else val e x) x = key (val e) x"
          using xd by (simp add: key_def)
        ultimately show ?thesis using root by simp
      qed
      then show ?thesis using pb(1) by simp
    qed
  qed simp_all
qed

text \<open>The list is full, the cell is outside the heap and stays below the root.\<close>

lemma step_stay_out:
  assumes inv: "ranking_inv e documents ps" and d: "d < documents"
    and dirty: "clean_flags e (drop_bit (accumulators_shift e) d) \<noteq> 0"
    and nov: "total_score ps d + unat s < 65536" and s: "s \<noteq> 0"
    and full: "results_list_length e = top_k e"
    and lt: "key (accumulators e) d < key (accumulators e) (accumulator_pointers e 0)"
    and ngt: "\<not> key ((accumulators e)(d := accumulators e d + s)) (accumulator_pointers e 0)
               < key ((accumulators e)(d := accumulators e d + s)) d"
  shows "ranking_inv (e\<lparr>accumulators := (accumulators e)(d := accumulators e d + s)\<rparr>)
           documents (ps @ [(d, s)])"
proof -
  let ?A = "accumulators e" and ?P = "accumulator_pointers e" and ?k = "top_k e"
  let ?A' = "?A(d := ?A d + s)"
  let ?e' = "e\<lparr>accumulators := ?A'\<rparr>"
  note ff = full_facts [OF inv full]
  have sub: "tracked e \<subseteq> positive documents ps" using inv by (simp add: ranking_inv_def)
  have dn: "d \<notin> tracked e" using below_root_outside [OF inv full lt] .
  have same: "?A' p = ?A p" if "p \<in> tracked e" for p using that dn by auto
  have "\<forall>i<?k. ?A (?P i) = ?A' (?P i)" using same unfolding ff(4) by auto
  then have h: "is_heap ?A' ?k ?P" using ff(1) is_heap_cong by blast
  have root0: "key ?A' (?P 0) = key ?A (?P 0)" using same [OF ff(6)] by (simp add: key_def)
  have "d \<noteq> ?P 0" using dn ff(6) by auto
  then have "key ?A' d \<noteq> key ?A' (?P 0)" by (simp add: key_eq_iff)
  then have below: "key ?A' d < key ?A' (?P 0)" using ngt by auto
  have tr: "tracked ?e' = tracked e" by (simp add: tracked_def)
  show ?thesis
  proof (rule ranking_inv_update [OF inv d dirty nov s])
    show "results_list_length ?e' \<le> top_k e" using full by simp
    show "inj_on (accumulator_pointers ?e') {..<results_list_length ?e'}"
      using ff(3) full by simp
    show "tracked ?e' \<subseteq> insert d (positive documents ps)" using tr sub by auto
    show "insert d (positive documents ps) \<subseteq> tracked ?e'"
      if "results_list_length ?e' < top_k e" using that full by simp
    show "is_heap (accumulators ?e') (top_k e) (accumulator_pointers ?e') \<and>
        (\<forall>x < cells e. x \<notin> tracked ?e' \<longrightarrow>
             key (\<lambda>x. if x = d then accumulators e d + s else val e x) x
               < key (accumulators ?e') (accumulator_pointers ?e' 0))"
    proof -
      have "key (\<lambda>x. if x = d then ?A d + s else val e x) x < key ?A' (?P 0)"
        if x: "x < cells e" "x \<notin> tracked ?e'" for x
      proof (cases "x = d")
        case True
        then have "key (\<lambda>x. if x = d then ?A d + s else val e x) x = key ?A' d"
          by (simp add: key_def)
        then show ?thesis using below by simp
      next
        case False
        then have "key (\<lambda>x. if x = d then ?A d + s else val e x) x = key (val e) x"
          by (simp add: key_def)
        then show ?thesis using ff(2) x tr root0 by simp
      qed
      then show ?thesis using h by simp
    qed
  qed simp_all
qed

lemma extent_updates:
  "heap_size (e\<lparr>accumulators := a\<rparr>) = heap_size e"
  "heap_size (e\<lparr>accumulator_pointers := p\<rparr>) = heap_size e"
  "heap_size (e\<lparr>results_list_length := l\<rparr>) = heap_size e"
  "accumulators_extent (e\<lparr>accumulators := a\<rparr>) = accumulators_extent e"
  "accumulators_extent (e\<lparr>accumulator_pointers := p\<rparr>) = accumulators_extent e"
  "accumulators_extent (e\<lparr>results_list_length := l\<rparr>) = accumulators_extent e"
  "accumulator_pointers_extent (e\<lparr>accumulators := a\<rparr>) = accumulator_pointers_extent e"
  "accumulator_pointers_extent (e\<lparr>accumulator_pointers := p\<rparr>) = accumulator_pointers_extent e"
  "accumulator_pointers_extent (e\<lparr>results_list_length := l\<rparr>) = accumulator_pointers_extent e"
  by (cases "variant e"; simp add: heap_size_def accumulators_extent_def
      accumulator_pointers_extent_def)+

text \<open>One call of \<open>add_rsv\<close> within its precondition does not fault and keeps the invariant.\<close>

lemma add_rsv_inv:
  assumes inv0: "ranking_inv e0 documents ps" and d: "d < documents"
    and nov: "total_score ps d + unat s < 65536" and s: "s \<noteq> 0"
  shows "\<exists>e'. add_rsv spec_externals e0 d s = Inr e' \<and> ranking_inv e' documents (ps @ [(d, s)])"
proof -
  obtain e where t: "touch e0 d = Inr e" and inv: "ranking_inv e documents ps"
    and dirty: "clean_flags e (drop_bit (accumulators_shift e) d) \<noteq> 0"
    using touch_inv [OF inv0 d] by blast
  let ?A = "accumulators e" and ?P = "accumulator_pointers e"
  let ?L = "results_list_length e" and ?k = "top_k e"
  let ?A' = "?A(d := ?A d + s)"
  have wf: "well_formed e documents" using inv by (simp add: ranking_inv_def)
  then have de: "\<not> accumulators_extent e \<le> d" and hs: "heap_size e = ?k"
    and pe: "?k \<le> accumulator_pointers_extent e" and k: "0 < ?k"
    using d by (simp_all add: well_formed_def)
  have Lk: "?L \<le> ?k" using inv by (simp add: ranking_inv_def)
  show ?thesis
  proof (cases "?L < ?k")
    case nf: True
    then have pl: "\<not> accumulator_pointers_extent e \<le> ?L" using pe by simp
    show ?thesis
    proof (cases "?A d = 0")
      case True
      define P' where "P' = (let P1 = ?P(?L := d)
                  in if ?L + 1 = ?k then make_heap ?A' ?k P1 else P1)"
      have "add_rsv spec_externals e0 d s =
              Inr (e\<lparr>accumulators := ?A', accumulator_pointers := P',
                     results_list_length := ?L + 1\<rparr>)"
        using nf True de pl hs
        by (simp add: add_rsv_def t Let_def P'_def spec_externals_def extent_updates)
      then show ?thesis
        using step_append [OF inv d dirty nov s nf True P'_def] by simp
    next
      case False
      have "add_rsv spec_externals e0 d s = Inr (e\<lparr>accumulators := ?A'\<rparr>)"
        using nf False de by (simp add: add_rsv_def t Let_def extent_updates)
      then show ?thesis
        using step_accumulate [OF inv d dirty nov s nf False] by simp
    qed
  next
    case False
    then have full: "?L = ?k" using Lk by simp
    note ff = full_facts [OF inv full]
    have p0: "?P 0 < accumulators_extent e" using tracked_cell(3) [OF inv ff(6)] .
    have ok: "\<not> (accumulator_pointers_extent e = 0 \<or> accumulators_extent e \<le> ?P 0)"
      using pe k p0 by simp
    have dlt: "d < accumulators_extent e" using de by simp
    note c = cmp_sign [OF dlt p0]
    show ?thesis
    proof (cases "0 \<le> cmp e d (?P 0)")
      case True
      then have ge: "key ?A (?P 0) \<le> key ?A d" using c(1) by simp
      have "add_rsv spec_externals e0 d s =
              Inr (e\<lparr>accumulators := ?A', accumulator_pointers := promote ?A' ?k ?P d\<rparr>)"
        using full True de ok hs
        by (simp add: add_rsv_def t Let_def spec_externals_def extent_updates)
      then show ?thesis
        using step_promote(2) [OF inv d dirty nov s full ge] by simp
    next
      case False
      then have lt: "key ?A d < key ?A (?P 0)" using c(1) by simp
      let ?e1 = "e\<lparr>accumulators := ?A'\<rparr>"
      have ext1: "accumulators_extent ?e1 = accumulators_extent e"
        by (rule extent_updates)
      have c1: "0 < cmp ?e1 d (?P 0) \<longleftrightarrow> key ?A' (?P 0) < key ?A' d"
        using cmp_sign(2) [of d ?e1 "?P 0"] dlt p0 ext1 by simp
      show ?thesis
      proof (cases "0 < cmp ?e1 d (?P 0)")
        case True
        then have gt: "key ?A' (?P 0) < key ?A' d" using c1 by simp
        have "add_rsv spec_externals e0 d s =
              Inr (e\<lparr>accumulators := ?A', accumulator_pointers := push_back ?A' ?k ?P d\<rparr>)"
          using full \<open>\<not> 0 \<le> cmp e d (?P 0)\<close> True de ok hs
          by (simp add: add_rsv_def t Let_def spec_externals_def extent_updates)
        then show ?thesis
          using step_push_back [OF inv d dirty nov s full lt gt] by simp
      next
        case False
        then have ngt: "\<not> key ?A' (?P 0) < key ?A' d" using c1 by simp
        have "add_rsv spec_externals e0 d s = Inr ?e1"
          using full \<open>\<not> 0 \<le> cmp e d (?P 0)\<close> False de ok
          by (simp add: add_rsv_def t Let_def extent_updates)
        then show ?thesis
          using step_stay_out [OF inv d dirty nov s full lt ngt] by simp
      qed
    qed
  qed
qed

lemma rewind_inv:
  assumes wf: "well_formed e documents"
  shows "\<exists>e0. rewind e = Inr e0 \<and> ranking_inv e0 documents []"
proof -
  let ?e0 = "e\<lparr>results_list_length := 0,
               clean_flags := (\<lambda>s. if s < accumulators_height e then 0 else clean_flags e s)\<rparr>"
  have r: "rewind e = Inr ?e0"
    using wf by (simp add: rewind_def well_formed_def)
  have wf0: "well_formed ?e0 documents" "cells ?e0 = cells e"
    by (rule well_formed_fields [OF wf]; simp)+
  have "val ?e0 d = 0" if "d < cells ?e0" for d
    using strip_in_bounds(1) [OF wf, of d] that wf0(2) by (simp add: val_def)
  moreover have "0 < top_k e" using wf by (simp add: well_formed_def)
  ultimately have "ranking_inv ?e0 documents []"
    using wf0(1) by (simp add: ranking_inv_def total_Nil tracked_def positive_def)
  then show ?thesis using r by blast
qed

lemma total_le_append: "total_score ps x \<le> total_score (ps @ qs) x"
  by (simp add: total_append)

lemma add_rsv_all_inv:
  assumes "ranking_inv e documents done"
    and "\<forall>p \<in> set ps. fst p < documents \<and> snd p \<noteq> 0"
    and "\<forall>d. total_score (done @ ps) d < 65536"
  shows "\<exists>e'. add_rsv_all spec_externals e ps = Inr e' \<and> ranking_inv e' documents (done @ ps)"
  using assms
proof (induction ps arbitrary: e "done")
  case Nil
  then show ?case by simp
next
  case (Cons p ps)
  obtain d s where p: "p = (d, s)" by (cases p)
  have ds: "d < documents" "s \<noteq> 0" using Cons.prems(2) p by simp_all
  have "total_score (done @ [(d, s)]) d \<le> total_score ((done @ [(d, s)]) @ ps) d"
    by (rule total_le_append)
  then have "total_score done d + unat s < 65536"
    using Cons.prems(3) p by (simp add: total_snoc le_less_trans)
  from add_rsv_inv [OF Cons.prems(1) ds(1) this ds(2)]
  obtain e1 where e1: "add_rsv spec_externals e d s = Inr e1"
    "ranking_inv e1 documents (done @ [(d, s)])" by blast
  have "\<exists>e'. add_rsv_all spec_externals e1 ps = Inr e'
            \<and> ranking_inv e' documents ((done @ [(d, s)]) @ ps)"
    using Cons.prems(2,3) p by (intro Cons.IH [OF e1(2)]) simp_all
  then show ?case using e1(1) p by simp
qed

subsection \<open>Sorted lists\<close>

lemma sorted_partition:
  assumes "sorted_wrt (\<lambda>a b. f a < f b) xs"
    and "\<forall>x \<in> set xs. \<forall>t \<in> set xs. x \<notin> T \<and> t \<in> T \<longrightarrow> f x < (f t :: 'b :: linorder)"
  shows "xs = filter (\<lambda>x. x \<notin> T) xs @ filter (\<lambda>x. x \<in> T) xs"
  using assms
proof (induction xs)
  case Nil
  then show ?case by simp
next
  case (Cons x xs)
  have ih: "xs = filter (\<lambda>x. x \<notin> T) xs @ filter (\<lambda>x. x \<in> T) xs"
    using Cons by simp
  show ?case
  proof (cases "x \<in> T")
    case False
    then show ?thesis using ih by simp
  next
    case True
    have "y \<in> T" if "y \<in> set xs" for y
    proof (rule ccontr)
      assume "y \<notin> T"
      then have "f y < f x" using Cons.prems(2) that True by simp
      moreover have "f x < f y" using Cons.prems(1) that by simp
      ultimately show False by simp
    qed
    then have "filter (\<lambda>x. x \<notin> T) xs = []" "filter (\<lambda>x. x \<in> T) xs = xs"
      by (simp_all add: filter_empty_conv filter_id_conv)
    then show ?thesis using True by simp
  qed
qed

lemma sorted_top:
  assumes srt: "sorted_wrt (\<lambda>a b. f a < f b) xs"
    and sub: "T \<subseteq> set xs"
    and above: "\<forall>x \<in> set xs. \<forall>t \<in> T. x \<notin> T \<longrightarrow> f x < (f t :: 'b :: linorder)"
  shows "set (drop (length xs - card T) xs) = T"
proof -
  have d: "distinct xs"
    using srt by (induction xs) auto
  have part: "xs = filter (\<lambda>x. x \<notin> T) xs @ filter (\<lambda>x. x \<in> T) xs"
    using srt above by (intro sorted_partition) auto
  have "{x. x \<in> T} \<inter> set xs = T" using sub by auto
  then have lt: "length (filter (\<lambda>x. x \<in> T) xs) = card T"
    using distinct_length_filter [OF d, of "\<lambda>x. x \<in> T"] by simp
  have "length xs = length (filter (\<lambda>x. x \<notin> T) xs) + length (filter (\<lambda>x. x \<in> T) xs)"
    using part by (metis length_append)
  then have "length xs - card T = length (filter (\<lambda>x. x \<notin> T) xs)" using lt by simp
  then have "drop (length xs - card T) xs = filter (\<lambda>x. x \<in> T) xs"
    using part by (metis append_eq_conv_conj)
  then show ?thesis using sub by auto
qed

lemma sorted_key_unique:
  fixes f :: "'a \<Rightarrow> 'b :: linorder"
  assumes "sorted (map f xs)" and "sorted (map f ys)"
    and "distinct xs" and "distinct ys" and "set xs = set ys" and "inj_on f (set xs)"
  shows "xs = ys"
proof -
  have "distinct (map f xs)" "distinct (map f ys)"
    using assms(3-6) by (simp_all add: distinct_map)
  moreover have "set (map f xs) = set (map f ys)" using assms(5) by simp
  ultimately have "map f xs = map f ys"
    using assms(1,2) by (intro sorted_distinct_set_unique)
  then show ?thesis
    using assms(5,6) by (intro map_inj_on [of f xs ys]) auto
qed

subsection \<open>The sorted pointers are the brute-force ranking\<close>

lemma sorted_pointers:
  assumes inv: "ranking_inv e documents ps"
  shows "rev (sort_key (key (accumulators e))
               (map (accumulator_pointers e) [0 ..< results_list_length e]))
         = take (top_k e) (ranking ps documents)"
proof -
  let ?A = "accumulators e" and ?P = "accumulator_pointers e"
  let ?L = "results_list_length e" and ?k = "top_k e"
  let ?T = "tracked e"
  define kt where "kt = (\<lambda>d. (total_score ps d, d))"
  define ts where "ts = map ?P [0 ..< ?L]"
  define S where "S = sort_key kt (filter (\<lambda>d. 0 < total_score ps d) [0 ..< documents])"
  define xs1 where "xs1 = sort_key (key ?A) ts"
  define xs2 where "xs2 = drop (length S - ?k) S"
  have inj: "inj_on ?P {..<?L}" and sub: "?T \<subseteq> positive documents ps" and Lk: "?L \<le> ?k"
    using inv by (simp_all add: ranking_inv_def)
  have ts: "distinct ts" "set ts = ?T"
    using inj by (simp_all add: ts_def distinct_map tracked_def atLeast0LessThan)
  have S: "distinct S" "set S = positive documents ps" "sorted (map kt S)"
    by (auto simp: S_def positive_def)
  have kt_inj: "inj_on kt X" for X by (auto simp: kt_def inj_on_def)
  have cardT: "card ?T = ?L"
    unfolding tracked_def using inj by (simp add: card_image)
  have iso: "kt a \<le> kt b" if "a \<in> ?T" "b \<in> ?T" "key ?A a \<le> key ?A b" for a b
  proof -
    have "unat (?A a) = total_score ps a" "unat (?A b) = total_score ps b"
      using tracked_cell(7) [OF inv] that by simp_all
    moreover have "?A a < ?A b \<or> ?A a = ?A b \<and> a \<le> b"
      using that(3) by (simp add: key_le_iff)
    ultimately show ?thesis
      by (auto simp: kt_def less_eq_prod_def word_less_nat_alt)
  qed
  have "sorted (map (key ?A) xs1)" by (simp add: xs1_def)
  then have "sorted_wrt (\<lambda>x y. key ?A x \<le> key ?A y) xs1" by (simp add: sorted_map)
  then have "sorted_wrt (\<lambda>x y. kt x \<le> kt y) xs1"
    by (rule sorted_wrt_mono_rel [rotated]) (use iso ts(2) in \<open>simp add: xs1_def\<close>)
  then have s1: "sorted (map kt xs1)" by (simp add: sorted_map)
  have d1: "distinct xs1" "set xs1 = ?T" using ts by (simp_all add: xs1_def)
  have "sorted (drop (length S - ?k) (map kt S))" using S(3) by (rule sorted_wrt_drop)
  then have s2: "sorted (map kt xs2)" by (simp add: xs2_def drop_map)
  have d2: "distinct xs2" using S(1) by (simp add: xs2_def)
  have strict: "sorted_wrt (\<lambda>a b. kt a < kt b) S"
  proof -
    have "distinct (map kt S)" using S(1) kt_inj by (simp add: distinct_map)
    then have "sorted_wrt (<) (map kt S)" using S(3) by (simp add: strict_sorted_iff)
    then show ?thesis by (simp add: sorted_wrt_map)
  qed
  have set2: "set xs2 = ?T"
  proof (cases "?L < ?k")
    case True
    then have eq: "positive documents ps = ?T" using inv sub by (auto simp: ranking_inv_def)
    then have "length S = ?L" using distinct_card [OF S(1)] S(2) cardT by simp
    then have "xs2 = S" using True by (simp add: xs2_def)
    then show ?thesis using S(2) eq by simp
  next
    case False
    then have full: "?L = ?k" using Lk by simp
    note ff = full_facts [OF inv full]
    have above: "kt x < kt t" if x: "x \<in> set S" "x \<notin> ?T" and t: "t \<in> ?T" for x t
    proof -
      have "x < documents" using x(1) S(2) by (simp add: positive_def)
      then have xc: "x < cells e" using inv by (simp add: ranking_inv_def well_formed_def)
      then have ux: "unat (val e x) = total_score ps x" using inv by (simp add: ranking_inv_def)
      have ut: "unat (?A t) = total_score ps t" using tracked_cell(7) [OF inv t] .
      have "key (val e) x < key ?A (?P 0)" using ff(2) xc x(2) by blast
      also have "\<dots> \<le> key ?A t" using ff(7) t by blast
      finally have "key (val e) x < key ?A t" .
      then have "val e x < ?A t \<or> val e x = ?A t \<and> x < t" by (simp add: key_less_iff)
      then show ?thesis
        using ux ut by (auto simp: kt_def less_prod_def word_less_nat_alt)
    qed
    have "set (drop (length S - card ?T) S) = ?T"
      using strict sub above unfolding S(2) [symmetric] by (intro sorted_top) auto
    then show ?thesis using cardT full by (simp add: xs2_def)
  qed
  have "xs1 = xs2"
    using s1 s2 d1(1) d2 d1(2) set2 kt_inj by (intro sorted_key_unique [of kt]) simp_all
  then have "rev xs1 = take ?k (rev S)" by (simp add: xs2_def take_rev)
  then show ?thesis
    by (simp add: xs1_def ts_def S_def ranking_def kt_def)
qed

lemma collect_map:
  assumes "\<forall>i \<in> set xs. iterator_deref e i = Inr (f i)"
  shows "collect e xs = Inr (map f xs)"
  using assms by (induction xs) simp_all

lemma top_k_qsort_prefix:
  "map (top_k_qsort A P L k) [0 ..< L] = rev (sort_key (key A) (map P [0 ..< L]))"
proof -
  let ?xs = "rev (sort_key (key A) (map P [0 ..< L]))"
  have len: "length ?xs = L" by simp
  have "map (top_k_qsort A P L k) [0 ..< L] = map ((!) ?xs) [0 ..< L]"
    by (simp add: top_k_qsort_def Let_def)
  also have "\<dots> = ?xs" using map_nth [of ?xs] len by simp
  finally show ?thesis .
qed

lemma results_brute_force:
  assumes inv: "ranking_inv e documents ps"
  shows "\<exists>rs. results spec_externals e = Inr rs
           \<and> map rsv_value rs = brute_force (primary_keys e) documents (top_k e) ps"
proof -
  let ?A = "accumulators e" and ?P = "accumulator_pointers e"
  let ?L = "results_list_length e" and ?k = "top_k e"
  let ?P' = "top_k_qsort ?A ?P ?L ?k"
  let ?e' = "sort_pointers spec_externals e"
  let ?f = "\<lambda>i. (?P' i, primary_keys e ! ?P' i, ?A (?P' i))"
  have wf: "well_formed e documents" and Lk: "?L \<le> ?k"
    using inv by (simp_all add: ranking_inv_def)
  have e': "?e' = e\<lparr>accumulator_pointers := ?P'\<rparr>"
    by (simp add: sort_pointers_def spec_externals_def)
  have m: "map ?P' [0 ..< ?L] = take ?k (ranking ps documents)"
    using top_k_qsort_prefix [of ?A ?P ?L ?k] sorted_pointers [OF inv] by simp
  have "set (map ?P' [0 ..< ?L]) = tracked e"
    unfolding top_k_qsort_prefix by (simp add: tracked_def atLeast0LessThan)
  then have tr: "?P' i \<in> tracked e" if "i < ?L" for i
    using that by (metis atLeastLessThan_iff image_eqI le0 set_map set_upt)
  have deref: "iterator_deref ?e' i = Inr (?f i)" if i: "i < ?L" for i
  proof -
    note tc = tracked_cell [OF inv tr [OF i]]
    have "i < accumulator_pointers_extent e" "?P' i < length (primary_keys e)"
      using wf i Lk tc(1) by (simp_all add: well_formed_def)
    then show ?thesis
      using tc(3) by (simp add: iterator_deref_def e' Let_def extent_updates)
  qed
  have "collect ?e' [0 ..< ?L] = Inr (map ?f [0 ..< ?L])"
    using deref by (intro collect_map) simp
  then have r: "results spec_externals e = Inr (map ?f [0 ..< ?L])"
    by (simp add: results_def iterator_begin_def iterator_end_def e')
  have "map rsv_value (map ?f [0 ..< ?L])
          = map (\<lambda>d. (d, primary_keys e ! d, unat (?A d))) (map ?P' [0 ..< ?L])"
    by (simp add: rsv_value_def)
  also have "\<dots> = map (\<lambda>d. (d, primary_keys e ! d, total_score ps d)) (map ?P' [0 ..< ?L])"
    using tr tracked_cell(7) [OF inv] by simp
  also have "\<dots> = brute_force (primary_keys e) documents ?k ps"
    unfolding m by (simp add: brute_force_def)
  finally show ?thesis using r by blast
qed

subsection \<open>Constructed engines\<close>

lemma width_squared:
  assumes "1 \<le> documents"
  shows "width_of documents * width_of documents \<le> documents"
proof -
  have "0 < floor_sqrt documents"
    using floor_sqrt_bounds [of documents] assms by (cases "floor_sqrt documents = 0") auto
  then have "width_of documents \<le> floor_sqrt documents"
    using floor_log2_bounds [of "floor_sqrt documents"] by (simp add: width_of_def shift_of_def)
  then have "width_of documents * width_of documents \<le> floor_sqrt documents * floor_sqrt documents"
    by (simp add: mult_le_mono)
  then show ?thesis using floor_sqrt_bounds [of documents] by simp
qed

lemma constructed_well_formed:
  assumes c: "query_atire_global v g keys documents k = Inr c"
    and docs: "1 \<le> documents" "documents < 2 ^ 32" "documents \<le> length keys"
    and k: "1 \<le> k" "k < 2 ^ 32"
    and static: "v = Static_arrays \<longrightarrow> k = 10"
  shows "well_formed c documents" and "top_k c = k" and "primary_keys c = keys"
proof -
  note cs = constructed_small [OF docs(2)]
  let ?W = "width_of documents" and ?H = "height_of documents"
  have k64: "k mod 2 ^ 64 = k" "k mod 2 ^ 32 = k"
    using k(2) by (simp_all add: less_trans [where y = "(2::nat) ^ 32"])
  have W: "0 < ?W" by (simp add: width_of_def)
  have "documents - 1 < ?W * ?H"
    using strip_bounds(2) [OF W, of "documents - 1" documents] docs(1)
    by (simp add: height_of_def)
  then have cover: "documents \<le> ?W * ?H" by simp
  define e where "e = g\<lparr>variant := v, accumulators_shift := shift_of documents,
                accumulators_width := ?W, accumulators_height := ?H,
                primary_keys := keys, top_k := k\<rparr>"
  have q: "query_atire_global v g keys documents k =
             (case v of Static_arrays \<Rightarrow> rewind e
              | Allocated_arrays \<Rightarrow>
                  Inr (e\<lparr>clean_flags := (\<lambda>s. if s < ?H then 0 else clean_flags e s)\<rparr>))"
    using k64
    by (cases v) (simp_all add: query_atire_global_def cs field_of_def e_def Let_def cong: if_cong)
  have "\<exists>flags len. c = e\<lparr>results_list_length := len, clean_flags := flags\<rparr>"
  proof (cases v)
    case Static_arrays
    then have "rewind e = Inr c" using c q by simp
    from rewind_Inr [OF this] show ?thesis by blast
  next
    case Allocated_arrays
    then have "c = e\<lparr>clean_flags := (\<lambda>s. if s < ?H then 0 else clean_flags e s)\<rparr>"
      using c q by simp
    then have "c = e\<lparr>results_list_length := results_list_length e,
                     clean_flags := (\<lambda>s. if s < ?H then 0 else clean_flags e s)\<rparr>"
      by simp
    then show ?thesis by blast
  qed
  then obtain flags len where cd: "c = e\<lparr>results_list_length := len, clean_flags := flags\<rparr>"
    by blast
  have fields: "variant c = v" "accumulators_shift c = shift_of documents"
    "accumulators_width c = ?W" "accumulators_height c = ?H"
    "top_k c = k" "primary_keys c = keys"
    by (simp_all add: cd e_def)
  show "top_k c = k" "primary_keys c = keys" using fields by simp_all
  show "well_formed c documents"
  proof (cases v)
    case Allocated_arrays
    then show ?thesis
      using fields cover docs(3) k(1)
      by (simp add: well_formed_def cells_def clean_flags_extent_def accumulators_extent_def
          accumulator_pointers_extent_def heap_size_def width_of_def)
  next
    case Static_arrays
    then have "rewind e = Inr c" using c q by simp
    then have H: "?H \<le> 10"
      using Static_arrays
      by (simp add: rewind_def clean_flags_extent_def e_def split: if_splits)
    have hq: "?H = documents div ?W + 1"
      using W by (simp add: height_of_def div_add_self2)
    have "documents < (documents div ?W + 1) * ?W"
      using W by (metis Suc_eq_plus1 dividend_less_div_times mult.commute mult_Suc)
    also have "\<dots> \<le> 10 * ?W" using H hq by simp
    finally have "documents < 10 * ?W" .
    with width_squared [OF docs(1)] have "?W * ?W < 10 * ?W" by (rule le_less_trans)
    then have "?W < 10" by simp
    then have "?W * ?H \<le> 10 * 10" using H by (intro mult_le_mono) simp_all
    then have "?W * ?H \<le> 200000" by simp
    then show ?thesis
      using Static_arrays fields cover docs(3) k(1) H static
      by (simp add: well_formed_def cells_def clean_flags_extent_def accumulators_extent_def
          accumulator_pointers_extent_def heap_size_def width_of_def)
  qed
qed

lemma calls_well_formed:
  assumes "calls x c cs = Inr e" and "well_formed c documents"
  shows "well_formed e documents \<and> top_k e = top_k c \<and> primary_keys e = primary_keys c"
  using assms
proof (induction cs arbitrary: c)
  case Nil
  then show ?case by simp
next
  case (Cons a cs)
  show ?case
  proof (cases a)
    case (Add_rsv docid score)
    with Cons.prems obtain e1 where e1: "add_rsv x c docid score = Inr e1" "calls x e1 cs = Inr e"
      by (auto split: sum.splits)
    have "well_formed e1 documents \<and> top_k e1 = top_k c \<and> primary_keys e1 = primary_keys c"
      by (rule add_rsv_Inr [OF e1(1)])
        (use well_formed_fields(1) [OF Cons.prems(2), of e1] in simp)
    then show ?thesis using Cons.IH [OF e1(2)] by simp
  next
    case Rewind
    with Cons.prems obtain e1 where e1: "rewind c = Inr e1" "calls x e1 cs = Inr e"
      by (auto split: sum.splits)
    have "well_formed e1 documents \<and> top_k e1 = top_k c \<and> primary_keys e1 = primary_keys c"
      using well_formed_fields(1) [OF Cons.prems(2), of e1] rewind_Inr [OF e1(1)] by simp
    then show ?thesis using Cons.IH [OF e1(2)] by simp
  qed
qed

subsection \<open>A query computes the brute-force ranking\<close>

lemma query_states:
  assumes wf: "well_formed e documents"
    and valid: "\<forall>p \<in> set ps. fst p < documents \<and> snd p \<noteq> 0"
    and bounded: "\<forall>d. total_score ps d < 65536"
  obtains e0 e1 where "rewind e = Inr e0" and "add_rsv_all spec_externals e0 ps = Inr e1"
    and "ranking_inv e1 documents ps"
    and "top_k e1 = top_k e" and "primary_keys e1 = primary_keys e"
proof -
  obtain e0 where e0: "rewind e = Inr e0" "ranking_inv e0 documents []"
    using rewind_inv [OF wf] by blast
  obtain e1 where e1: "add_rsv_all spec_externals e0 ps = Inr e1" "ranking_inv e1 documents ps"
    using add_rsv_all_inv [OF e0(2) valid] bounded by auto
  have "calls spec_externals e (Rewind # map (\<lambda>p. Add_rsv (fst p) (snd p)) ps) = Inr e1"
    using e0(1) e1(1)
  proof -
    have "calls spec_externals a (map (\<lambda>p. Add_rsv (fst p) (snd p)) qs)
            = add_rsv_all spec_externals a qs" for a qs
      by (induction qs arbitrary: a) (simp_all split: sum.splits)
    then show ?thesis using e0(1) e1(1) by simp
  qed
  from calls_well_formed [OF this wf] show ?thesis using that e0(1) e1 by blast
qed

lemma query_correct:
  assumes wf: "well_formed e documents"
    and valid: "\<forall>p \<in> set ps. fst p < documents \<and> snd p \<noteq> 0"
    and bounded: "\<forall>d. total_score ps d < 65536"
  shows "run_query spec_externals e ps
           = Inr (brute_force (primary_keys e) documents (top_k e) ps)"
proof -
  obtain e0 e1 where s: "rewind e = Inr e0" "add_rsv_all spec_externals e0 ps = Inr e1"
    "ranking_inv e1 documents ps" "top_k e1 = top_k e" "primary_keys e1 = primary_keys e"
    using query_states [OF assms] by blast
  from results_brute_force [OF s(3)] show ?thesis
    using s by (auto simp: run_query_def)
qed



lemma scenario_engine_constructed:
  assumes "k < 2 ^ 32"
  shows "query_atire_global Allocated_arrays program_start
     [''d0'', ''d1'', ''d2'', ''d3'', ''d4'', ''d5'', ''d6'', ''d7'', ''d8'', ''d9''] 10 k
   = Inr (scenario_engine k)"
proof -
  have "constructed_shift Allocated_arrays 10 = 1" "constructed_width Allocated_arrays 10 = 2"
    "constructed_height Allocated_arrays 10 = 6"
    by (simp_all add: constructed_small height_of_def width_of_def shift_of_10)
  moreover have "k mod 2 ^ 64 = k"
    using assms by (simp add: less_trans [where y = "(2::nat) ^ 32"])
  ultimately show ?thesis
    by (simp add: query_atire_global_def Let_def program_start_def field_of_def
        scenario_engine_def cong: if_cong)
qed


lemma upt_10: "[0 ..< 10] = [0, 1, 2, 3, 4, 5, 6, 7, 8, 9 :: nat]"
  by (simp add: upt_rec)

lemmas brute_defs = brute_force_def ranking_def total_score_def upt_10 less_eq_prod_def

subsection \<open>C1: the iterator yields the brute-force top k\<close>




text \<open>The scenarios S3 and S4 of the specification, on the allocating version.\<close>

lemma scenario_eviction:
  "run_query spec_externals (scenario_engine 2) [(0, 1), (1, 2), (2, 3), (3, 4)]
     = Inr [(3, ''d3'', 4), (2, ''d2'', 3)]"
proof -
  have "(2::nat) < 2 ^ 32" by simp
  note c = scenario_engine_constructed [OF this]
  have "well_formed (scenario_engine 2) 10"
    using constructed_well_formed(1) [OF c] by simp
  moreover have "\<forall>d. total_score [(0, 1), (1, 2), (2, 3), (3, 4)] d < 65536"
    by (simp add: total_score_def)
  ultimately have "run_query spec_externals (scenario_engine 2) [(0, 1), (1, 2), (2, 3), (3, 4)]
     = Inr (brute_force (primary_keys (scenario_engine 2)) 10 (top_k (scenario_engine 2))
              [(0, 1), (1, 2), (2, 3), (3, 4)])"
    by (intro query_correct) simp_all
  then show ?thesis by (simp add: scenario_engine_def brute_defs)
qed

lemma scenario_tie_break:
  "run_query spec_externals (scenario_engine 2) [(2, 5), (4, 5), (1, 5)]
     = Inr [(4, ''d4'', 5), (2, ''d2'', 5)]"
proof -
  have "(2::nat) < 2 ^ 32" by simp
  note c = scenario_engine_constructed [OF this]
  have "well_formed (scenario_engine 2) 10"
    using constructed_well_formed(1) [OF c] by simp
  moreover have "\<forall>d. total_score [(2, 5), (4, 5), (1, 5)] d < 65536"
    by (simp add: total_score_def)
  ultimately have "run_query spec_externals (scenario_engine 2) [(2, 5), (4, 5), (1, 5)]
     = Inr (brute_force (primary_keys (scenario_engine 2)) 10 (top_k (scenario_engine 2))
              [(2, 5), (4, 5), (1, 5)])"
    by (intro query_correct) simp_all
  then show ?thesis by (simp add: scenario_engine_def brute_defs)
qed

subsection \<open>C2: the order of the calls does not matter\<close>





subsection \<open>C4: the cells outside a full heap are below its root\<close>




lemma full_when_enough:
  assumes inv: "ranking_inv e documents ps"
    and "top_k e \<le> card (positive documents ps)"
  shows "results_list_length e = top_k e"
proof (rule ccontr)
  assume "results_list_length e \<noteq> top_k e"
  then have lt: "results_list_length e < top_k e" using inv by (simp add: ranking_inv_def)
  then have "positive documents ps \<subseteq> tracked e" using inv by (simp add: ranking_inv_def)
  moreover have "finite (tracked e)" by (simp add: tracked_def)
  ultimately have "card (positive documents ps) \<le> card (tracked e)" by (rule card_mono [rotated])
  also have "\<dots> \<le> results_list_length e"
    unfolding tracked_def by (metis card_image_le card_lessThan finite_lessThan)
  finally show False using lt assms(2) by simp
qed








end
